theory Spec2Isabelle
  imports Complex_Main "HOL-Library.Word" "HOL-Library.Char_ord" "HOL-Library.List_Lexorder"
    "HOL-Library.Product_Lexorder"
begin

section \<open>Errors and device arrays\<close>

text \<open>
  The exceptions of the Python code are values of \<open>error\<close>. \<open>OutOfBounds\<close> stands for a
  read or write of a kernel outside the array it was handed: the CUDA kernel performs no
  bounds check, and what such an access does depends on what lies next to the buffer in
  device memory, which is not part of this model. A run that leaves a buffer is cut off with
  this value, and nothing is said about the device memory after it.
\<close>

datatype error = OutOfBounds | ValueError | ZeroDivisionError | IndexError | KeyError | TypeError

type_synonym 'a result = "error + 'a"

definition and_then :: "'a result \<Rightarrow> ('a \<Rightarrow> 'b result) \<Rightarrow> 'b result" where
  "and_then m f = (case m of Inl e \<Rightarrow> Inl e | Inr x \<Rightarrow> f x)"

text \<open>
  Reading \<open>xs[i]\<close> for a loop index \<open>i \<ge> 0\<close>, and writing \<open>xs[j] = v\<close> for a signed
  index: a negative index counts from the end of the array, as Python indexing does.
  Elements are unbounded integers here; every value the kernel stores lies between
  \<open>start[i]\<close> and \<open>end[i]\<close>, so it fits the element type whenever the inputs do.
\<close>

definition load :: "int list \<Rightarrow> nat \<Rightarrow> int result" where
  "load xs i = (if i < length xs then Inr (xs ! i) else Inl OutOfBounds)"

definition store :: "int list \<Rightarrow> int \<Rightarrow> int \<Rightarrow> int list result" where
  "store xs j v =
     (let n = int (length xs); k = (if j < 0 then j + n else j)
      in if 0 \<le> k \<and> k < n then Inr (xs[nat k := v]) else Inl OutOfBounds)"

section \<open>The kernel \<open>expand_interval\<close>\<close>

record intervals =
  interval_start :: "int list"
  interval_end :: "int list"
  interval_index :: "int list"

text \<open>
  One pass of the inner loop body: the three stores at slot \<open>j\<close>; \<open>index[i]\<close> is read
  inside the loop, as in the source.
\<close>

definition write_slot :: "int list \<Rightarrow> nat \<Rightarrow> int \<Rightarrow> int \<Rightarrow> intervals \<Rightarrow> intervals result" where
  "write_slot index i j chrom_start out =
     and_then (store (interval_start out) j chrom_start) (\<lambda>s.
     and_then (store (interval_end out) j (chrom_start + 1)) (\<lambda>e.
     and_then (load index i) (\<lambda>ix.
     and_then (store (interval_index out) j ix) (\<lambda>x.
       Inr \<lparr>interval_start = s, interval_end = e, interval_index = x\<rparr>))))"

text \<open>
  \<open>for j in range(first_index, end_index[i], step)\<close>, with \<open>chrom_start\<close> advanced by one
  in every pass. A zero step is Python's ValueError.
\<close>

function inner_loop :: "int list \<Rightarrow> nat \<Rightarrow> int \<Rightarrow> int \<Rightarrow> int \<Rightarrow> int \<Rightarrow> intervals \<Rightarrow> intervals result" where
  "inner_loop index i j stop step chrom_start out =
     (if step = 0 then Inl ValueError
      else if (0 < step \<and> j < stop) \<or> (step < 0 \<and> stop < j) then
        (case write_slot index i j chrom_start out of
           Inl e \<Rightarrow> Inl e
         | Inr out' \<Rightarrow> inner_loop index i (j + step) stop step (chrom_start + 1) out')
      else Inr out)"
  by pat_completeness auto
termination
  by (relation "measure (\<lambda>(index, i, j, stop, step, chrom_start, out).
        nat (if 0 < step then stop - j else j - stop))") auto

text \<open>The body of the outer loop for one fragment \<open>i\<close>.\<close>

definition expand_fragment ::
  "int list \<Rightarrow> int list \<Rightarrow> int list \<Rightarrow> int list \<Rightarrow> int \<Rightarrow> nat \<Rightarrow> intervals \<Rightarrow> intervals result" where
  "expand_fragment start end' index end_index step i out =
     and_then (load end_index i) (\<lambda>ei.
     and_then (load end' i) (\<lambda>e.
     and_then (load start i) (\<lambda>s.
       inner_loop index i (ei - (e - s)) ei step s out)))"

fun run_fragments ::
  "int list \<Rightarrow> int list \<Rightarrow> int list \<Rightarrow> int list \<Rightarrow> int \<Rightarrow> nat list \<Rightarrow> intervals \<Rightarrow> intervals result" where
  "run_fragments start end' index end_index step [] out = Inr out"
| "run_fragments start end' index end_index step (i # is) out =
     (case expand_fragment start end' index end_index step i out of
        Inl e \<Rightarrow> Inl e
      | Inr out' \<Rightarrow> run_fragments start end' index end_index step is out')"

text \<open>
  \<open>range(cuda.threadIdx.x, start.size, cuda.blockDim.x)\<close>: the fragments thread \<open>tid\<close>
  of a block visits. The loop uses the index of the thread inside its block only, so every
  block of the grid visits every fragment.
\<close>

definition thread_indices :: "nat \<Rightarrow> nat \<Rightarrow> nat \<Rightarrow> nat list" where
  "thread_indices tid block_dim n =
     filter (\<lambda>i. tid \<le> i \<and> (i - tid) mod block_dim = 0) [0..<n]"

definition block_indices :: "nat \<Rightarrow> nat \<Rightarrow> nat list" where
  "block_indices block_dim n = concat (map (\<lambda>tid. thread_indices tid block_dim n) [0..<block_dim])"

text \<open>
  The kernel launched on \<open>grid_dim\<close> blocks of \<open>block_dim\<close> threads. The threads are run
  one after the other, block by block; what is proved below about \<open>run_fragments\<close> holds
  for every order in which the fragments are visited.
\<close>

definition expand_interval ::
  "nat \<Rightarrow> nat \<Rightarrow> int list \<Rightarrow> int list \<Rightarrow> int list \<Rightarrow> int list \<Rightarrow> intervals \<Rightarrow> int \<Rightarrow> intervals result" where
  "expand_interval grid_dim block_dim start end' index end_index out step =
     run_fragments start end' index end_index step
       (concat (replicate grid_dim (block_indices block_dim (length start)))) out"

text \<open>The inclusive running sum of a column (\<open>Series.cumsum\<close>).\<close>

fun cumsum_from :: "int \<Rightarrow> int list \<Rightarrow> int list" where
  "cumsum_from acc [] = []"
| "cumsum_from acc (x # xs) = (acc + x) # cumsum_from (acc + x) xs"

definition cumsum :: "int list \<Rightarrow> int list" where
  "cumsum xs = cumsum_from 0 xs"

text \<open>
  Notions used to state what the kernel does: two sets of output arrays of the same
  sizes, a slot index below the size of all three arrays, the first slot of fragment \<open>i\<close>
  (the source's \<open>first_index\<close>), and the slots of fragment \<open>i\<close> holding its unit
  intervals.
\<close>

definition same_sizes :: "intervals \<Rightarrow> intervals \<Rightarrow> bool" where
  "same_sizes a b \<longleftrightarrow>
     length (interval_start a) = length (interval_start b) \<and>
     length (interval_end a) = length (interval_end b) \<and>
     length (interval_index a) = length (interval_index b)"

definition fits :: "int \<Rightarrow> intervals \<Rightarrow> bool" where
  "fits j out \<longleftrightarrow>
     j < int (length (interval_start out)) \<and> j < int (length (interval_end out)) \<and>
     j < int (length (interval_index out))"

definition first_slot :: "int list \<Rightarrow> int list \<Rightarrow> int list \<Rightarrow> nat \<Rightarrow> int" where
  "first_slot start end' end_index i = end_index ! i - (end' ! i - start ! i)"

definition slots_hold ::
  "int list \<Rightarrow> int list \<Rightarrow> int list \<Rightarrow> int list \<Rightarrow> nat \<Rightarrow> intervals \<Rightarrow> bool" where
  "slots_hold start end' index end_index i out \<longleftrightarrow>
     (\<forall>m. first_slot start end' end_index i \<le> int m \<and> int m < end_index ! i \<longrightarrow>
        fits (int m) out \<and>
        interval_start out ! m = start ! i + (int m - first_slot start end' end_index i) \<and>
        interval_end out ! m = start ! i + (int m - first_slot start end' end_index i) + 1 \<and>
        interval_index out ! m = index ! i)"

text \<open>
  The result of the kernel in closed form: slot \<open>m\<close> belongs to the fragment whose range of
  slots contains it, if there is one, and then holds that fragment's unit interval; a slot
  of no fragment keeps what it held.
\<close>

definition owner :: "int list \<Rightarrow> int list \<Rightarrow> int list \<Rightarrow> nat \<Rightarrow> nat option" where
  "owner start end' end_index m =
     find (\<lambda>i. first_slot start end' end_index i \<le> int m \<and> int m < end_index ! i)
       [0..<length start]"

definition expansion :: "int list \<Rightarrow> int list \<Rightarrow> int list \<Rightarrow> int list \<Rightarrow> intervals \<Rightarrow> intervals" where
  "expansion start end' index end_index out =
     \<lparr>interval_start = map (\<lambda>m. case owner start end' end_index m of
          None \<Rightarrow> interval_start out ! m
        | Some i \<Rightarrow> start ! i + (int m - first_slot start end' end_index i))
          [0..<length (interval_start out)],
      interval_end = map (\<lambda>m. case owner start end' end_index m of
          None \<Rightarrow> interval_end out ! m
        | Some i \<Rightarrow> start ! i + (int m - first_slot start end' end_index i) + 1)
          [0..<length (interval_end out)],
      interval_index = map (\<lambda>m. case owner start end' end_index m of
          None \<Rightarrow> interval_index out ! m
        | Some i \<Rightarrow> index ! i)
          [0..<length (interval_index out)]\<rparr>"

section \<open>Arrays of the host code\<close>

text \<open>
  A two-dimensional numpy array with its shape (a shape with no row still has a column
  count), and a three-dimensional one with its cells in row-major order. Cells are reals:
  the coverage values are counts, which the floating-point cells hold exactly.
\<close>

record array2d =
  nrows :: nat
  ncols :: nat
  rows :: "real list list"

record array3d =
  dim0 :: nat
  dim1 :: nat
  dim2 :: nat
  flat :: "real list"

definition wf2d :: "array2d \<Rightarrow> bool" where
  "wf2d a \<longleftrightarrow> length (rows a) = nrows a \<and> list_all (\<lambda>r. length r = ncols a) (rows a)"

text \<open>\<open>np.zeros(shape=(r, c))\<close>: a negative dimension is a ValueError.\<close>

definition np_zeros :: "int \<Rightarrow> int \<Rightarrow> array2d result" where
  "np_zeros r c =
     (if r < 0 \<or> c < 0 then Inl ValueError
      else Inr \<lparr>nrows = nat r, ncols = nat c, rows = replicate (nat r) (replicate (nat c) 0)\<rparr>)"

text \<open>
  \<open>range(start, stop, step)\<close> as the list it runs through, and the slice \<open>xs[a:b]\<close>
  with Python's treatment of negative and overlong bounds.
\<close>

definition py_range :: "int \<Rightarrow> int \<Rightarrow> int \<Rightarrow> int list result" where
  "py_range start stop step =
     (if step = 0 then Inl ValueError
      else if 0 < step then
        Inr (map (\<lambda>k. start + int k * step) [0..<nat ((stop - start + step - 1) div step)])
      else
        Inr (map (\<lambda>k. start + int k * step) [0..<nat ((start - stop - step - 1) div (- step))]))"

definition slice_bound :: "nat \<Rightarrow> int \<Rightarrow> nat" where
  "slice_bound n a = (if a < 0 then nat (max 0 (a + int n)) else min n (nat a))"

definition py_slice :: "'a list \<Rightarrow> int \<Rightarrow> int \<Rightarrow> 'a list" where
  "py_slice xs a b = drop (slice_bound (length xs) a) (take (slice_bound (length xs) b) xs)"

text \<open>
  \<open>int(a / b)\<close> on integers: the quotient rounded towards zero, with ZeroDivisionError
  for \<open>b = 0\<close>. The float quotient is taken as exact, which it is for operands below
  \<open>2^53\<close> in size, as the sizes of arrays are; beyond that the rounding of the quotient
  is not modelled.
\<close>

definition int_of_quotient :: "int \<Rightarrow> int \<Rightarrow> int result" where
  "int_of_quotient a b =
     (if b = 0 then Inl ZeroDivisionError else Inr (sgn a * sgn b * (\<bar>a\<bar> div \<bar>b\<bar>)))"

text \<open>
  \<open>np.stack\<close> of a list of rows: at least one row, all of one length. Assigning an array
  to a block of rows broadcasts it: a single row, or a single cell in a row, is repeated.
\<close>

definition np_stack :: "real list list \<Rightarrow> real list list result" where
  "np_stack rs =
     (case rs of
        [] \<Rightarrow> Inl ValueError
      | r # _ \<Rightarrow> if list_all (\<lambda>q. length q = length r) rs then Inr rs else Inl ValueError)"

definition broadcast_to :: "nat \<Rightarrow> 'a list \<Rightarrow> 'a list result" where
  "broadcast_to n xs =
     (if length xs = n then Inr xs
      else if length xs = 1 then Inr (replicate n (hd xs))
      else Inl ValueError)"

fun broadcast_rows :: "nat \<Rightarrow> real list list \<Rightarrow> real list list result" where
  "broadcast_rows w [] = Inr []"
| "broadcast_rows w (r # rs) =
     and_then (broadcast_to w r) (\<lambda>r'.
     and_then (broadcast_rows w rs) (\<lambda>rs'. Inr (r' # rs')))"

text \<open>
  \<open>target[lo:hi, :] = src\<close> for \<open>lo \<le> hi\<close> inside the target: the source, broadcast to
  \<open>hi - lo\<close> rows of the target's width, replaces those rows.
\<close>

definition assign_rows :: "array2d \<Rightarrow> nat \<Rightarrow> nat \<Rightarrow> real list list \<Rightarrow> array2d result" where
  "assign_rows target lo hi src =
     and_then (broadcast_rows (ncols target) src) (\<lambda>wide.
     and_then (broadcast_to (hi - lo) wide) (\<lambda>block.
       Inr (target\<lparr>rows := take lo (rows target) @ block @ drop hi (rows target)\<rparr>)))"

section \<open>\<open>reshape_with_padding\<close> and \<open>atacworks_denoise\<close>\<close>

text \<open>The loop over the clusters: the windows of cluster \<open>i\<close> go to rows \<open>i*n \<dots> (i+1)*n - 1\<close>.\<close>

fun fill_clusters ::
  "array2d \<Rightarrow> int list \<Rightarrow> nat \<Rightarrow> int \<Rightarrow> nat list \<Rightarrow> array2d \<Rightarrow> array2d result" where
  "fill_clusters coverage interval_starts n_intervals padded_interval_size [] reshaped_coverage =
     Inr reshaped_coverage"
| "fill_clusters coverage interval_starts n_intervals padded_interval_size (i # is) reshaped_coverage =
     and_then (np_stack (map (\<lambda>start. py_slice (rows coverage ! i) start (start + padded_interval_size))
                  interval_starts)) (\<lambda>reshaped_cluster_coverage.
     and_then (assign_rows reshaped_coverage (i * n_intervals) ((i + 1) * n_intervals)
                  reshaped_cluster_coverage) (\<lambda>reshaped_coverage'.
       fill_clusters coverage interval_starts n_intervals padded_interval_size is reshaped_coverage'))"

definition reshape_with_padding :: "array2d \<Rightarrow> int \<Rightarrow> int \<Rightarrow> array2d result" where
  "reshape_with_padding coverage interval_size pad =
     (let num_clusters = nrows coverage;
          padded_interval_size = interval_size + 2 * pad
      in and_then (int_of_quotient (int (ncols coverage) - 2 * pad) interval_size) (\<lambda>n_intervals.
         and_then (if n_intervals = 1 then Inr [0]
                   else py_range 0 (int (ncols coverage) - padded_interval_size) (interval_size + pad))
           (\<lambda>interval_starts.
         and_then (np_zeros (int num_clusters * n_intervals) padded_interval_size) (\<lambda>reshaped_coverage.
           fill_clusters coverage interval_starts (nat n_intervals) padded_interval_size
             [0..<num_clusters] reshaped_coverage))))"

text \<open>
  The network is a parameter: a function from the batch of padded intervals, of shape
  \<open>(batch, 1, width)\<close>, to its output heads, each a two-dimensional array.
\<close>

type_synonym network = "array3d \<Rightarrow> array2d list"

definition unsqueeze1 :: "array2d \<Rightarrow> array3d" where
  "unsqueeze1 a = \<lparr>dim0 = nrows a, dim1 = 1, dim2 = ncols a, flat = concat (rows a)\<rparr>"

text \<open>\<open>np.stack(heads, axis=-1)\<close>: the heads must be of one shape, and there must be one.\<close>

definition stack_last :: "array2d list \<Rightarrow> array3d result" where
  "stack_last heads =
     (case heads of
        [] \<Rightarrow> Inl ValueError
      | h # _ \<Rightarrow>
          if list_all (\<lambda>g. nrows g = nrows h \<and> ncols g = ncols h) heads then
            Inr \<lparr>dim0 = nrows h, dim1 = ncols h, dim2 = length heads,
                 flat = concat (map (\<lambda>b. concat (map (\<lambda>p. map (\<lambda>g. rows g ! b ! p) heads)
                           [0..<ncols h])) [0..<nrows h])\<rparr>
          else Inl ValueError)"

text \<open>
  \<open>pred[:, center, :]\<close> for a list of positions along the second axis; a position
  outside the axis (after counting negative ones from its end) is an IndexError.
\<close>

definition axis_index :: "nat \<Rightarrow> int \<Rightarrow> nat result" where
  "axis_index n c =
     (let k = (if c < 0 then c + int n else c)
      in if 0 \<le> k \<and> k < int n then Inr (nat k) else Inl IndexError)"

fun axis_indices :: "nat \<Rightarrow> int list \<Rightarrow> nat list result" where
  "axis_indices n [] = Inr []"
| "axis_indices n (c # cs) =
     and_then (axis_index n c) (\<lambda>k. and_then (axis_indices n cs) (\<lambda>ks. Inr (k # ks)))"

definition take_axis1 :: "array3d \<Rightarrow> int list \<Rightarrow> array3d result" where
  "take_axis1 a center =
     and_then (axis_indices (dim1 a) center) (\<lambda>ks.
       Inr \<lparr>dim0 = dim0 a, dim1 = length ks, dim2 = dim2 a,
            flat = concat (map (\<lambda>b. concat (map (\<lambda>p.
                     take (dim2 a) (drop ((b * dim1 a + p) * dim2 a) (flat a))) ks))
                     [0..<dim0 a])\<rparr>)"

text \<open>
  \<open>a.reshape((d0, d1, d2))\<close> with \<open>d0\<close> and \<open>d2\<close> array dimensions: the cells keep their
  order; the sizes must agree. A middle dimension \<open>-1\<close> is inferred by numpy.
\<close>

definition reshape3 :: "array3d \<Rightarrow> nat \<Rightarrow> int \<Rightarrow> nat \<Rightarrow> array3d result" where
  "reshape3 a d0 d1 d2 =
     (let total = dim0 a * dim1 a * dim2 a
      in if d1 = - 1 then
           (if d0 * d2 \<noteq> 0 \<and> total mod (d0 * d2) = 0
            then Inr \<lparr>dim0 = d0, dim1 = total div (d0 * d2), dim2 = d2, flat = flat a\<rparr>
            else Inl ValueError)
         else if d1 < 0 \<or> d0 * nat d1 * d2 \<noteq> total then Inl ValueError
         else Inr \<lparr>dim0 = d0, dim1 = nat d1, dim2 = d2, flat = flat a\<rparr>)"

definition atacworks_denoise ::
  "array2d \<Rightarrow> network \<Rightarrow> nat \<Rightarrow> int \<Rightarrow> int \<Rightarrow> array3d result" where
  "atacworks_denoise coverage model gpu interval_size pad =
     and_then (reshape_with_padding coverage interval_size pad) (\<lambda>input_arr.
     and_then (stack_last (model (unsqueeze1 input_arr))) (\<lambda>pred.
     and_then (py_range pad (int (dim1 pred) - pad) 1) (\<lambda>center.
     and_then (take_axis1 pred center) (\<lambda>pred'.
       reshape3 pred' (nrows coverage) (int (ncols coverage) - 2 * pad) (dim2 pred')))))"

section \<open>\<open>get_coverages\<close>\<close>

text \<open>
  The reads dataframe, row by row: the columns \<open>chrom\<close>, \<open>start\<close>, \<open>end\<close>, \<open>cell\<close>,
  \<open>row_num\<close>, \<open>len\<close> of \<open>read_fragments\<close> and the \<open>cluster\<close> column the caller adds.
  The columns of the reads hold integers of any size here; the columns of
  \<open>expanded_coverage\<close> are \<open>np.int32\<close>, and what is stored in them is kept in 32 bits
  (\<open>as_int32\<close> below). \<open>read_info\<close> is a row of the frame after
  \<open>drop(['start', 'end'])\<close>, \<open>merged\<close> a row of the merge with the expanded intervals,
  \<open>summed\<close> a row of the group-by count, whose remaining columns each hold the size of
  the group.
\<close>

record 'c read =
  read_chrom :: string
  read_start :: int
  read_end :: int
  read_cell :: string
  read_row_num :: int
  read_len :: int
  read_cluster :: 'c

record 'c read_info =
  info_chrom :: string
  info_cell :: string
  info_row_num :: int
  info_len :: int
  info_cluster :: 'c

record 'c merged =
  m_start :: int
  m_end :: int
  m_row_num :: int
  m_chrom :: string
  m_cell :: string
  m_len :: int
  m_cluster :: 'c

record 'c summed =
  s_chrom :: string
  s_start :: int
  s_end :: int
  s_cluster :: 'c
  s_row_num :: nat
  s_cell :: nat
  s_len :: nat

text \<open>
  Dataframes are objects: the store is the list of the frames allocated so far, and a
  reference is a position in it. A frame is the reads with all their columns, the reads
  after the two columns were dropped in place, or the expanded coverage, whose three
  columns the kernel writes.
\<close>

datatype 'c frame = Reads "'c read list" | Info "'c read_info list" | Expanded intervals

type_synonym 'c store = "'c frame list"

definition alloc :: "'c frame \<Rightarrow> 'c store \<Rightarrow> nat \<times> 'c store" where
  "alloc f \<sigma> = (length \<sigma>, \<sigma> @ [f])"

definition drop_start_end :: "'c read \<Rightarrow> 'c read_info" where
  "drop_start_end r =
     \<lparr>info_chrom = read_chrom r, info_cell = read_cell r, info_row_num = read_row_num r,
      info_len = read_len r, info_cluster = read_cluster r\<rparr>"

text \<open>
  \<open>expanded_coverage.merge(reads, on='row_num')\<close>: the inner join, every expanded row
  with every read of the same \<open>row_num\<close>.
\<close>

definition merge_row_num :: "intervals \<Rightarrow> 'c read_info list \<Rightarrow> 'c merged list" where
  "merge_row_num expanded infos =
     concat (map (\<lambda>(s, e, n).
        map (\<lambda>r. \<lparr>m_start = s, m_end = e, m_row_num = n, m_chrom = info_chrom r,
                   m_cell = info_cell r, m_len = info_len r, m_cluster = info_cluster r\<rparr>)
          (filter (\<lambda>r. info_row_num r = n) infos))
       (zip (interval_start expanded) (zip (interval_end expanded) (interval_index expanded))))"

text \<open>
  \<open>groupby(['chrom', 'start', 'end', 'cluster'], as_index=False).count()\<close>: one row per
  key that occurs, in ascending order of the keys, with the number of rows of the group in
  each remaining column.
\<close>

definition group_key :: "'c merged \<Rightarrow> string \<times> int \<times> int \<times> 'c" where
  "group_key m = (m_chrom m, m_start m, m_end m, m_cluster m)"

definition groupby_count :: "('c::linorder) merged list \<Rightarrow> 'c summed list" where
  "groupby_count ms =
     map (\<lambda>(c, s, e, k).
        let n = length (filter (\<lambda>m. group_key m = (c, s, e, k)) ms)
        in \<lparr>s_chrom = c, s_start = s, s_end = e, s_cluster = k,
            s_row_num = n, s_cell = n, s_len = n\<rparr>)
       (sort (remdups (map group_key ms)))"

text \<open>
  \<open>row[coords] = values\<close>: the assignments one after the other, so that the last one
  wins where a coordinate repeats. The coordinates have passed the mask and are inside the
  row.
\<close>

definition scatter :: "real list \<Rightarrow> (int \<times> nat) list \<Rightarrow> real list" where
  "scatter row cvs = fold (\<lambda>(c, v) r. r[nat c := real v]) cvs row"

text \<open>The body of the loop over the clusters: the new row \<open>x[i]\<close> for \<open>cluster\<close>.\<close>

definition cluster_track ::
  "('c::linorder) summed list \<Rightarrow> int \<Rightarrow> int \<Rightarrow> int \<Rightarrow> 'c \<Rightarrow> real list \<Rightarrow> real list" where
  "cluster_track summed_coverage start end' pad cluster row =
     (let df_group = filter (\<lambda>s. s_cluster s = cluster) summed_coverage;
          coords = map (\<lambda>s. s_start s - start + pad) df_group;
          values = map s_row_num df_group;
          ind = map (\<lambda>c. 0 \<le> c \<and> c < end' - start + 2 * pad) coords;
          kept = map snd (filter fst (zip ind (zip coords values)))
      in scatter row kept)"

fun fill_tracks ::
  "('c::linorder) summed list \<Rightarrow> int \<Rightarrow> int \<Rightarrow> int \<Rightarrow> (nat \<times> 'c) list \<Rightarrow> array2d \<Rightarrow> array2d" where
  "fill_tracks summed_coverage start end' pad [] x = x"
| "fill_tracks summed_coverage start end' pad ((i, cluster) # rest) x =
     fill_tracks summed_coverage start end' pad rest
       (x\<lparr>rows := (rows x)[i := cluster_track summed_coverage start end' pad cluster (rows x ! i)]\<rparr>)"

definition enumerate_list :: "'a list \<Rightarrow> (nat \<times> 'a) list" where
  "enumerate_list xs = zip [0..<length xs] xs"

text \<open>\<open>sorted(np.unique(reads['cluster']))\<close>.\<close>

definition clusters_of :: "('c::linorder) read list \<Rightarrow> 'c list" where
  "clusters_of reads = sort (remdups (map read_cluster reads))"

text \<open>
  A value kept in a 32-bit signed integer, and the three columns of \<open>expanded_coverage\<close>
  as \<open>np.int32\<close> columns hold what the kernel stored.
\<close>

definition int32 :: "int \<Rightarrow> int" where
  "int32 v = (v + 2147483648) mod 4294967296 - 2147483648"

definition as_int32 :: "intervals \<Rightarrow> intervals" where
  "as_int32 out =
     \<lparr>interval_start = map int32 (interval_start out),
      interval_end = map int32 (interval_end out),
      interval_index = map int32 (interval_index out)\<rparr>"

text \<open>
  \<open>get_coverages\<close>, with the store it runs in. \<open>reads_orig\<close> is the reference it is
  handed; \<open>copy\<close>, \<open>sort_values\<close> and \<open>reset_index\<close> each return a new frame (the row
  labels that \<open>reset_index\<close> renumbers are not modelled), \<open>drop\<close> changes the frame
  \<open>reads\<close> in place, and the kernel writes the columns of \<open>expanded_coverage\<close>, which are
  allocated with \<open>window_size\<close> rows. \<open>forall(n)\<close> launches enough blocks of the size it
  picks, \<open>block_dim\<close>, to have \<open>n\<close> threads, and none for \<open>n = 0\<close>. A frame without one
  of the columns read is a KeyError. The parameter \<open>chrom\<close> and the local
  \<open>expanded_coverage_size = reads['len'].sum()\<close> are not used by the source.

  The second component of the result is the store after the call. The columns of all
  frames lie in device memory: once the kernel has written outside the columns it was
  handed, what any frame holds is no longer determined, and the store is \<open>None\<close>.
\<close>

definition get_coverages ::
  "nat \<Rightarrow> ('c::linorder) store \<Rightarrow> nat \<Rightarrow> string \<Rightarrow> int \<Rightarrow> int \<Rightarrow> int \<Rightarrow>
     array2d result \<times> 'c store option" where
  "get_coverages block_dim \<sigma> reads_orig chrom start end' pad =
     (case \<sigma> ! reads_orig of
        Reads rows0 \<Rightarrow>
          (let (copied, \<sigma>1) = alloc (Reads rows0) \<sigma>;
               (sorted_reads, \<sigma>2) = alloc (Reads (sort_key read_row_num rows0)) \<sigma>1;
               (reads, \<sigma>3) = alloc (Reads (sort_key read_row_num rows0)) \<sigma>2;
               rs = sort_key read_row_num rows0;
               clusters = clusters_of rs;
               num_clusters = length clusters;
               window_size = end' - start + 2 * pad;
               expanded_coverage_size = sum_list (map read_len rs)
           in if window_size < 0 then (Inl ValueError, Some \<sigma>3)
              else
                let zeros = replicate (nat window_size) 0;
                    (expanded_coverage, \<sigma>4) =
                      alloc (Expanded \<lparr>interval_start = zeros, interval_end = zeros,
                                        interval_index = zeros\<rparr>) \<sigma>3
                in case expand_interval ((length rs + block_dim - 1) div block_dim) block_dim
                          (map read_start rs) (map read_end rs) (map read_row_num rs)
                          (cumsum (map read_len rs))
                          \<lparr>interval_start = zeros, interval_end = zeros, interval_index = zeros\<rparr> 1 of
                     Inl e \<Rightarrow> (Inl e, None)
                   | Inr written \<Rightarrow>
                       let expanded = as_int32 written;
                           \<sigma>5 = \<sigma>4[expanded_coverage := Expanded expanded];
                           \<sigma>6 = \<sigma>5[reads := Info (map drop_start_end rs)];
                           merged = merge_row_num expanded (map drop_start_end rs);
                           summed_coverage = groupby_count merged
                       in case np_zeros (int num_clusters) window_size of
                            Inl e \<Rightarrow> (Inl e, Some \<sigma>6)
                          | Inr x \<Rightarrow>
                              (Inr (fill_tracks summed_coverage start end' pad
                                      (enumerate_list clusters) x), Some \<sigma>6))
      | _ \<Rightarrow> (Inl KeyError, Some \<sigma>))"

text \<open>
  A read whose \<open>len\<close> column is \<open>end - start\<close> and is not negative, and the closed form
  of what the kernel leaves in the columns of \<open>expanded_coverage\<close> for a list of reads.
\<close>

definition read_ok :: "'c read \<Rightarrow> bool" where
  "read_ok r \<longleftrightarrow> read_len r = read_end r - read_start r \<and> read_start r \<le> read_end r"

text \<open>
  The launch of the kernel by \<open>get_coverages\<close> for the sorted reads and a window, and the
  summed coverage computed from what the kernel has written.
\<close>

definition kernel_launch :: "nat \<Rightarrow> 'c read list \<Rightarrow> nat \<Rightarrow> intervals result" where
  "kernel_launch block_dim rs window_size =
     expand_interval ((length rs + block_dim - 1) div block_dim) block_dim
       (map read_start rs) (map read_end rs) (map read_row_num rs) (cumsum (map read_len rs))
       \<lparr>interval_start = replicate window_size 0, interval_end = replicate window_size 0,
        interval_index = replicate window_size 0\<rparr> 1"

definition summed_coverage_of :: "intervals \<Rightarrow> ('c::linorder) read list \<Rightarrow> 'c summed list" where
  "summed_coverage_of written rs =
     groupby_count (merge_row_num (as_int32 written) (map drop_start_end rs))"

definition expanded_reads :: "'c read list \<Rightarrow> nat \<Rightarrow> intervals" where
  "expanded_reads rs window_size =
     expansion (map read_start rs) (map read_end rs) (map read_row_num rs)
       (cumsum (map read_len rs))
       \<lparr>interval_start = replicate window_size 0, interval_end = replicate window_size 0,
        interval_index = replicate window_size 0\<rparr>"

section \<open>\<open>count_fragments\<close>\<close>

text \<open>
  The table \<open>count_fragments\<close> returns: the columns \<open>cell\<close> and \<open>fragments\<close>.
\<close>

record 'v barcode_count =
  cell :: 'v
  fragments :: nat

text \<open>
  \<open>Series.value_counts()\<close>: the distinct values that are present, each with the number
  of its occurrences, most frequent first and, among equally frequent ones, in the order in
  which they first occur; missing values are left out.
\<close>

definition value_counts :: "'v option list \<Rightarrow> ('v \<times> nat) list" where
  "value_counts col =
     (let vals = map the (filter (\<lambda>c. c \<noteq> None) col)
      in sort_key (\<lambda>(v, n). - int n)
           (map (\<lambda>v. (v, count_list vals v)) (rev (remdups (rev vals)))))"

text \<open>
  \<open>pd.read_csv(fragment_file, compression='gzip', sep='\t', header=None, usecols=[3])\<close>
  is the parameter \<open>read_csv\<close>: for a file it yields the cells of the fourth column, one
  per line, a missing value (\<open>None\<close>) where the reader finds none, or raises.
  \<open>reset_index\<close> turns the counted values into the first column, and the two columns are
  named \<open>cell\<close> and \<open>fragments\<close>.
\<close>

definition count_fragments ::
  "('f \<Rightarrow> 'v option list result) \<Rightarrow> 'f \<Rightarrow> 'v barcode_count list result" where
  "count_fragments read_csv fragment_file =
     and_then (read_csv fragment_file) (\<lambda>fragment_barcodes.
       Inr (map (\<lambda>(v, n). \<lparr>cell = v, fragments = n\<rparr>) (value_counts fragment_barcodes)))"

section \<open>\<open>tabix_query\<close> and \<open>read_fragments\<close>\<close>

text \<open>
  \<open>str.strip()\<close> removes the white space at both ends (the characters below 256 for which
  \<open>str.isspace\<close> holds); \<open>str.split(sep)\<close> cuts at every separator and yields at least
  one field; \<open>'{}'.format(i)\<close> writes an integer in decimal.
\<close>

definition is_space :: "char \<Rightarrow> bool" where
  "is_space c \<longleftrightarrow> (of_char c :: nat) \<in> {9, 10, 11, 12, 13, 28, 29, 30, 31, 32, 133, 160}"

definition strip :: "string \<Rightarrow> string" where
  "strip s = rev (dropWhile is_space (rev (dropWhile is_space s)))"

fun split_on :: "'a \<Rightarrow> 'a list \<Rightarrow> 'a list list" where
  "split_on sep [] = [[]]"
| "split_on sep (c # cs) =
     (if c = sep then [] # split_on sep cs
      else (c # hd (split_on sep cs)) # tl (split_on sep cs))"

fun digits :: "nat \<Rightarrow> string" where
  "digits n =
     (if n < 10 then [''0123456789'' ! n] else digits (n div 10) @ [''0123456789'' ! (n mod 10)])"

declare digits.simps [simp del]

definition format_int :: "int \<Rightarrow> string" where
  "format_int i = (if i < 0 then CHR ''-'' # digits (nat (- i)) else digits (nat i))"

text \<open>
  The parameter \<open>tabix\<close> is the program run by \<open>Popen(['tabix', '-f', filename, query])\<close>:
  for a file name and a query it gives the decoded lines of its output, each with its line
  end. Characters are bytes, which covers the ASCII text of a fragment file.
\<close>

definition tabix_query ::
  "(string \<Rightarrow> string \<Rightarrow> string list) \<Rightarrow> string \<Rightarrow> string \<Rightarrow> int \<Rightarrow> int \<Rightarrow> string list list" where
  "tabix_query tabix filename chrom start end' =
     (let query = chrom @ '':'' @ format_int start @ ''-'' @ format_int end'
      in map (\<lambda>line. split_on (CHR 0x09) (strip line)) (tabix filename query))"

text \<open>
  A dataframe by columns, in their order: strings, 32-bit integers, or the 64-bit integers
  of an index. \<open>cudf.DataFrame(data=records, columns=names)\<close> is modelled for records of as
  many fields as there are names, and is a ValueError here for any other record;
  \<open>iloc[:, :n]\<close> keeps the first \<open>n\<close> columns;
  \<open>df[name] = column\<close> replaces a column or adds one at the end; \<open>astype\<close> converts the
  named columns, with the conversion of one string to a 32-bit integer as the parameter
  \<open>str_to_int32\<close> (\<open>None\<close> where the conversion raises); the difference of two 32-bit
  columns is taken in 32 bits.
\<close>

datatype column = Strings "string list" | Int32s "32 word list" | Int64s "int list"

type_synonym dataframe = "(string \<times> column) list"

definition column_length :: "column \<Rightarrow> nat" where
  "column_length c = (case c of Strings xs \<Rightarrow> length xs | Int32s xs \<Rightarrow> length xs | Int64s xs \<Rightarrow> length xs)"

definition new_dataframe :: "string list list \<Rightarrow> string list \<Rightarrow> dataframe result" where
  "new_dataframe data columns =
     (if list_all (\<lambda>r. length r = length columns) data
      then Inr (map (\<lambda>j. (columns ! j, Strings (map (\<lambda>r. r ! j) data))) [0..<length columns])
      else Inl ValueError)"

definition iloc_columns :: "dataframe \<Rightarrow> nat \<Rightarrow> dataframe" where
  "iloc_columns df n = take n df"

definition index_of :: "dataframe \<Rightarrow> int list" where
  "index_of df = (case df of [] \<Rightarrow> [] | (name, c) # rest \<Rightarrow> map int [0..<column_length c])"

definition set_column :: "dataframe \<Rightarrow> string \<Rightarrow> column \<Rightarrow> dataframe" where
  "set_column df name c =
     (if name \<in> fst ` set df then map (\<lambda>(k, old). if k = name then (k, c) else (k, old)) df
      else df @ [(name, c)])"

definition get_column :: "dataframe \<Rightarrow> string \<Rightarrow> column result" where
  "get_column df name = (case map_of df name of None \<Rightarrow> Inl KeyError | Some c \<Rightarrow> Inr c)"

definition to_int32 :: "(string \<Rightarrow> 32 word option) \<Rightarrow> column \<Rightarrow> column result" where
  "to_int32 str_to_int32 c =
     (case c of
        Strings xs \<Rightarrow>
          if list_all (\<lambda>x. str_to_int32 x \<noteq> None) xs
          then Inr (Int32s (map (\<lambda>x. the (str_to_int32 x)) xs)) else Inl ValueError
      | Int32s xs \<Rightarrow> Inr (Int32s xs)
      | Int64s xs \<Rightarrow> Inr (Int32s (map word_of_int xs)))"

fun astype_int32 :: "(string \<Rightarrow> 32 word option) \<Rightarrow> dataframe \<Rightarrow> string list \<Rightarrow> dataframe result" where
  "astype_int32 str_to_int32 df [] = Inr df"
| "astype_int32 str_to_int32 df (name # names) =
     and_then (get_column df name) (\<lambda>c.
     and_then (to_int32 str_to_int32 c) (\<lambda>c'.
       astype_int32 str_to_int32 (set_column df name c') names))"

definition subtract :: "column \<Rightarrow> column \<Rightarrow> column result" where
  "subtract a b =
     (case (a, b) of
        (Int32s xs, Int32s ys) \<Rightarrow> Inr (Int32s (map2 (-) xs ys))
      | (Int64s xs, Int64s ys) \<Rightarrow> Inr (Int64s (map2 (-) xs ys))
      | (Int32s xs, Int64s ys) \<Rightarrow> Inr (Int64s (map2 (-) (map sint xs) ys))
      | (Int64s xs, Int32s ys) \<Rightarrow> Inr (Int64s (map2 (-) xs (map sint ys)))
      | _ \<Rightarrow> Inl TypeError)"

definition read_fragments ::
  "(string \<Rightarrow> string \<Rightarrow> string list) \<Rightarrow> (string \<Rightarrow> 32 word option) \<Rightarrow>
   string \<Rightarrow> int \<Rightarrow> int \<Rightarrow> string \<Rightarrow> int \<Rightarrow> dataframe result" where
  "read_fragments tabix str_to_int32 chrom start end' fragment_file pad =
     and_then (new_dataframe (tabix_query tabix fragment_file chrom (start - pad) (end' + pad))
                 [''chrom'', ''start'', ''end'', ''cell'', ''duplicate'']) (\<lambda>reads0.
     let reads1 = iloc_columns reads0 4;
         reads2 = set_column reads1 ''row_num'' (Int64s (index_of reads1))
     in and_then (astype_int32 str_to_int32 reads2 [''start'', ''end'']) (\<lambda>reads3.
        and_then (get_column reads3 ''end'') (\<lambda>e.
        and_then (get_column reads3 ''start'') (\<lambda>s.
        and_then (subtract e s) (\<lambda>l. Inr (set_column reads3 ''len'' l))))))"

section \<open>What the kernel writes\<close>

lemma store_length: "store xs j v = Inr ys \<Longrightarrow> length ys = length xs"
  by (auto simp: store_def Let_def split: if_splits)

lemma store_nonneg:
  "0 \<le> j \<Longrightarrow> store xs j v = (if j < int (length xs) then Inr (xs[nat j := v]) else Inl OutOfBounds)"
  by (simp add: store_def Let_def)

lemma write_slot_nonneg:
  "0 \<le> j \<Longrightarrow> write_slot index i j c out =
     (if fits j out \<and> i < length index
      then Inr \<lparr>interval_start = (interval_start out)[nat j := c],
                interval_end = (interval_end out)[nat j := c + 1],
                interval_index = (interval_index out)[nat j := index ! i]\<rparr>
      else Inl OutOfBounds)"
  by (simp add: write_slot_def store_nonneg and_then_def load_def fits_def)

lemma inner_loop_unit:
  "inner_loop index i j stop 1 c out =
     (if j < stop then
        (case write_slot index i j c out of
           Inl e \<Rightarrow> Inl e
         | Inr out' \<Rightarrow> inner_loop index i (j + 1) stop 1 (c + 1) out')
      else Inr out)"
  by (subst inner_loop.simps) simp

lemma inner_loop_effect:
  "0 \<le> j \<Longrightarrow> inner_loop index i j stop 1 c out = Inr out' \<Longrightarrow>
     same_sizes out' out \<and>
     (\<forall>m. j \<le> int m \<and> int m < stop \<longrightarrow>
        fits (int m) out \<and> i < length index \<and>
        interval_start out' ! m = c + (int m - j) \<and>
        interval_end out' ! m = c + (int m - j) + 1 \<and>
        interval_index out' ! m = index ! i) \<and>
     (\<forall>m. \<not> (j \<le> int m \<and> int m < stop) \<longrightarrow>
        interval_start out' ! m = interval_start out ! m \<and>
        interval_end out' ! m = interval_end out ! m \<and>
        interval_index out' ! m = interval_index out ! m)"
proof (induction "nat (stop - j)" arbitrary: j c out)
  case 0
  then have "\<not> j < stop" by simp
  with 0 have "out' = out" by (simp add: inner_loop_unit)
  with \<open>\<not> j < stop\<close> show ?case by (auto simp: same_sizes_def)
next
  case (Suc d)
  then have lt: "j < stop" by linarith
  let ?mid = "\<lparr>interval_start = (interval_start out)[nat j := c],
                interval_end = (interval_end out)[nat j := c + 1],
                interval_index = (interval_index out)[nat j := index ! i]\<rparr>"
  have unf: "inner_loop index i j stop 1 c out =
      (case write_slot index i j c out of Inl e \<Rightarrow> Inl e
       | Inr mid \<Rightarrow> inner_loop index i (j + 1) stop 1 (c + 1) mid)"
    using lt by (subst inner_loop_unit) simp
  have ws: "write_slot index i j c out =
      (if fits j out \<and> i < length index then Inr ?mid else Inl OutOfBounds)"
    using Suc.prems(1) by (rule write_slot_nonneg)
  have ok': "fits j out \<and> i < length index"
  proof (rule ccontr)
    assume "\<not> ?thesis"
    then have "write_slot index i j c out = Inl OutOfBounds" using ws by simp
    then show False using unf Suc.prems(2) by simp
  qed
  then have ok: "fits j out" "i < length index" by simp_all
  have run: "inner_loop index i (j + 1) stop 1 (c + 1) ?mid = Inr out'"
    using unf ws ok' Suc.prems(2) by simp
  have d: "d = nat (stop - (j + 1))" using Suc.hyps(2) by linarith
  have j1: "0 \<le> j + 1" using Suc.prems(1) by simp
  note IH = Suc.hyps(1) [OF d j1 run]
  have sz: "same_sizes ?mid out" by (simp add: same_sizes_def)
  have fm: "fits k ?mid \<longleftrightarrow> fits k out" for k by (simp add: fits_def)
  show ?case
  proof (intro conjI allI impI)
    show "same_sizes out' out" using IH sz by (auto simp: same_sizes_def)
  next
    fix m assume m: "j \<le> int m \<and> int m < stop"
    show "fits (int m) out"
    proof (cases "int m = j")
      case True then show ?thesis using ok by simp
    next
      case False
      with m have "j + 1 \<le> int m \<and> int m < stop" by linarith
      with IH fm show ?thesis by blast
    qed
    show "i < length index" by (rule ok)
    show "interval_start out' ! m = c + (int m - j)"
    proof (cases "int m = j")
      case True
      then have "\<not> (j + 1 \<le> int m \<and> int m < stop)" by simp
      with IH have "interval_start out' ! m = interval_start ?mid ! m" by blast
      moreover have "nat j = m" using True by simp
      moreover have "m < length (interval_start out)" using ok True by (simp add: fits_def)
      ultimately show ?thesis using True by simp
    next
      case False
      with m have "j + 1 \<le> int m \<and> int m < stop" by linarith
      with IH have "interval_start out' ! m = c + 1 + (int m - (j + 1))" by blast
      then show ?thesis by simp
    qed
    show "interval_end out' ! m = c + (int m - j) + 1"
    proof (cases "int m = j")
      case True
      then have "\<not> (j + 1 \<le> int m \<and> int m < stop)" by simp
      with IH have "interval_end out' ! m = interval_end ?mid ! m" by blast
      moreover have "nat j = m" using True by simp
      moreover have "m < length (interval_end out)" using ok True by (simp add: fits_def)
      ultimately show ?thesis using True by simp
    next
      case False
      with m have "j + 1 \<le> int m \<and> int m < stop" by linarith
      with IH have "interval_end out' ! m = c + 1 + (int m - (j + 1)) + 1" by blast
      then show ?thesis by simp
    qed
    show "interval_index out' ! m = index ! i"
    proof (cases "int m = j")
      case True
      then have "\<not> (j + 1 \<le> int m \<and> int m < stop)" by simp
      with IH have "interval_index out' ! m = interval_index ?mid ! m" by blast
      moreover have "nat j = m" using True by simp
      moreover have "m < length (interval_index out)" using ok True by (simp add: fits_def)
      ultimately show ?thesis using True by simp
    next
      case False
      with m have "j + 1 \<le> int m \<and> int m < stop" by linarith
      with IH show ?thesis by blast
    qed
  next
    fix m assume m: "\<not> (j \<le> int m \<and> int m < stop)"
    then have m': "\<not> (j + 1 \<le> int m \<and> int m < stop)" by linarith
    from m lt have ne: "nat j \<noteq> m" using Suc.prems(1) by linarith
    from IH m' have "interval_start out' ! m = interval_start ?mid ! m"
      "interval_end out' ! m = interval_end ?mid ! m"
      "interval_index out' ! m = interval_index ?mid ! m" by blast+
    with ne show "interval_start out' ! m = interval_start out ! m"
      "interval_end out' ! m = interval_end out ! m"
      "interval_index out' ! m = interval_index out ! m" by simp_all
  qed
qed

lemma inner_loop_returns:
  "0 \<le> j \<Longrightarrow> (j < stop \<Longrightarrow> fits (stop - 1) out \<and> i < length index) \<Longrightarrow>
     \<exists>out'. inner_loop index i j stop 1 c out = Inr out'"
proof (induction "nat (stop - j)" arbitrary: j c out)
  case 0
  then have "\<not> j < stop" by simp
  then show ?case by (simp add: inner_loop_unit)
next
  case (Suc d)
  then have lt: "j < stop" by linarith
  with Suc.prems have ok: "fits (stop - 1) out" "i < length index" by simp_all
  then have fj: "fits j out" using lt by (simp add: fits_def)
  let ?mid = "\<lparr>interval_start = (interval_start out)[nat j := c],
                interval_end = (interval_end out)[nat j := c + 1],
                interval_index = (interval_index out)[nat j := index ! i]\<rparr>"
  have d: "d = nat (stop - (j + 1))" using Suc.hyps(2) by linarith
  have j1: "0 \<le> j + 1" using Suc.prems(1) by simp
  have "fits (stop - 1) ?mid" using ok by (simp add: fits_def)
  with Suc.hyps(1) [OF d j1, of ?mid "c + 1"] ok
  have "\<exists>out'. inner_loop index i (j + 1) stop 1 (c + 1) ?mid = Inr out'" by blast
  then obtain out' where run: "inner_loop index i (j + 1) stop 1 (c + 1) ?mid = Inr out'" ..
  have "write_slot index i j c out = Inr ?mid"
    using Suc.prems(1) fj ok by (simp add: write_slot_nonneg)
  moreover have "inner_loop index i j stop 1 c out =
      (case write_slot index i j c out of Inl e \<Rightarrow> Inl e
       | Inr mid \<Rightarrow> inner_loop index i (j + 1) stop 1 (c + 1) mid)"
    using lt by (subst inner_loop_unit) simp
  ultimately show ?case using run by simp
qed


lemma fits_same_sizes: "same_sizes a b \<Longrightarrow> fits j a \<longleftrightarrow> fits j b"
  by (simp add: same_sizes_def fits_def)

lemma same_sizes_trans: "same_sizes a b \<Longrightarrow> same_sizes b c \<Longrightarrow> same_sizes a c"
  by (simp add: same_sizes_def)

lemma expand_fragment_unit:
  "i < length start \<Longrightarrow> i < length end' \<Longrightarrow> i < length end_index \<Longrightarrow>
     expand_fragment start end' index end_index step i out =
       inner_loop index i (first_slot start end' end_index i) (end_index ! i) step (start ! i) out"
  by (simp add: expand_fragment_def load_def and_then_def first_slot_def)

lemma expand_fragment_effect:
  assumes i: "i < length start" "i < length end'" "i < length end_index"
    and nonneg: "0 \<le> first_slot start end' end_index i"
    and run: "expand_fragment start end' index end_index 1 i out = Inr mid"
  shows "same_sizes mid out"
    and "slots_hold start end' index end_index i mid"
    and "\<And>m. \<not> (first_slot start end' end_index i \<le> int m \<and> int m < end_index ! i) \<Longrightarrow>
           interval_start mid ! m = interval_start out ! m \<and>
           interval_end mid ! m = interval_end out ! m \<and>
           interval_index mid ! m = interval_index out ! m"
proof -
  from run i have r: "inner_loop index i (first_slot start end' end_index i) (end_index ! i) 1
      (start ! i) out = Inr mid"
    by (simp add: expand_fragment_unit)
  note eff = inner_loop_effect [OF nonneg r]
  show sz: "same_sizes mid out" using eff by blast
  show "slots_hold start end' index end_index i mid"
    unfolding slots_hold_def using eff fits_same_sizes [OF sz] by blast
  show "\<And>m. \<not> (first_slot start end' end_index i \<le> int m \<and> int m < end_index ! i) \<Longrightarrow>
           interval_start mid ! m = interval_start out ! m \<and>
           interval_end mid ! m = interval_end out ! m \<and>
           interval_index mid ! m = interval_index out ! m"
    using eff by blast
qed

lemma slots_hold_kept:
  assumes sz: "same_sizes mid out"
    and same: "\<And>m. \<not> (lo \<le> int m \<and> int m < hi) \<Longrightarrow>
           interval_start mid ! m = interval_start out ! m \<and>
           interval_end mid ! m = interval_end out ! m \<and>
           interval_index mid ! m = interval_index out ! m"
    and apart: "hi \<le> first_slot start end' end_index k \<or> end_index ! k \<le> lo"
    and held: "slots_hold start end' index end_index k out"
  shows "slots_hold start end' index end_index k mid"
  unfolding slots_hold_def
proof (intro allI impI)
  fix m assume m: "first_slot start end' end_index k \<le> int m \<and> int m < end_index ! k"
  with apart have "\<not> (lo \<le> int m \<and> int m < hi)" by linarith
  from same [OF this] held m fits_same_sizes [OF sz, of "int m"]
  show "fits (int m) mid \<and>
        interval_start mid ! m = start ! k + (int m - first_slot start end' end_index k) \<and>
        interval_end mid ! m = start ! k + (int m - first_slot start end' end_index k) + 1 \<and>
        interval_index mid ! m = index ! k"
    by (simp add: slots_hold_def)
qed

lemma run_fragments_effect:
  assumes sizes: "length end' = length start" "length end_index = length start"
    and nonneg: "\<forall>i<length start. 0 \<le> first_slot start end' end_index i"
    and apart: "\<forall>i<length start. \<forall>k<length start. i \<noteq> k \<longrightarrow>
        end_index ! i \<le> first_slot start end' end_index k \<or>
        end_index ! k \<le> first_slot start end' end_index i"
  shows "\<forall>i\<in>set is. i < length start \<Longrightarrow>
     run_fragments start end' index end_index 1 is out = Inr out' \<Longrightarrow>
     \<forall>k\<in>S. k < length start \<and> slots_hold start end' index end_index k out \<Longrightarrow>
     same_sizes out' out \<and> (\<forall>k\<in>S \<union> set is. slots_hold start end' index end_index k out')"
proof (induction "is" arbitrary: out S)
  case Nil
  then show ?case by (simp add: same_sizes_def)
next
  case (Cons i "is")
  from Cons.prems(1) have i: "i < length start" by simp
  from Cons.prems(2) obtain mid where
    frag: "expand_fragment start end' index end_index 1 i out = Inr mid" and
    rest: "run_fragments start end' index end_index 1 is mid = Inr out'"
    by (auto split: sum.splits)
  have i': "i < length end'" "i < length end_index" using i sizes by simp_all
  have nn: "0 \<le> first_slot start end' end_index i" using nonneg i by simp
  note eff = expand_fragment_effect [OF i i' nn frag]
  have inv: "\<forall>k\<in>insert i S. k < length start \<and> slots_hold start end' index end_index k mid"
  proof
    fix k assume k: "k \<in> insert i S"
    show "k < length start \<and> slots_hold start end' index end_index k mid"
    proof (cases "k = i")
      case True
      then show ?thesis using i eff(2) by simp
    next
      case False
      with k Cons.prems(3) have kS: "k < length start" "slots_hold start end' index end_index k out"
        by auto
      from apart i kS(1) False
      have "end_index ! i \<le> first_slot start end' end_index k \<or>
            end_index ! k \<le> first_slot start end' end_index i" by blast
      from slots_hold_kept [OF eff(1) eff(3) this kS(2)] kS(1) show ?thesis by simp
    qed
  qed
  from Cons.prems(1) have "\<forall>i\<in>set is. i < length start" by simp
  from Cons.IH [OF this rest inv]
  have "same_sizes out' mid" "\<forall>k\<in>insert i S \<union> set is. slots_hold start end' index end_index k out'"
    by simp_all
  then show ?case using same_sizes_trans [OF _ eff(1)] by auto
qed

lemma run_fragments_returns:
  assumes sizes: "length end' = length start" "length end_index = length start"
      "length index = length start"
    and nonneg: "\<forall>i<length start. 0 \<le> first_slot start end' end_index i"
  shows "\<forall>i\<in>set is. i < length start \<Longrightarrow>
     \<forall>i<length start. first_slot start end' end_index i < end_index ! i \<longrightarrow>
        fits (end_index ! i - 1) out \<Longrightarrow>
     \<exists>out'. run_fragments start end' index end_index 1 is out = Inr out'"
proof (induction "is" arbitrary: out)
  case Nil
  then show ?case by simp
next
  case (Cons i "is")
  from Cons.prems(1) have i: "i < length start" by simp
  have i': "i < length end'" "i < length end_index" using i sizes by simp_all
  have nn: "0 \<le> first_slot start end' end_index i" using nonneg i by simp
  have "\<exists>mid. inner_loop index i (first_slot start end' end_index i) (end_index ! i) 1
      (start ! i) out = Inr mid"
    using Cons.prems(2) i sizes by (intro inner_loop_returns [OF nn]) simp
  then obtain mid where
    frag: "expand_fragment start end' index end_index 1 i out = Inr mid"
    using i i' by (auto simp: expand_fragment_unit)
  note eff = expand_fragment_effect [OF i i' nn frag]
  have "\<forall>i<length start. first_slot start end' end_index i < end_index ! i \<longrightarrow>
        fits (end_index ! i - 1) mid"
    using Cons.prems(2) fits_same_sizes [OF eff(1)] by simp
  moreover from Cons.prems(1) have "\<forall>i\<in>set is. i < length start" by simp
  ultimately obtain out' where "run_fragments start end' index end_index 1 is mid = Inr out'"
    using Cons.IH by blast
  with frag show ?case by simp
qed


lemma length_cumsum_from: "length (cumsum_from a xs) = length xs"
  by (induction xs arbitrary: a) simp_all

lemma cumsum_from_nth:
  "i < length xs \<Longrightarrow> cumsum_from a xs ! i = a + sum_list (take (Suc i) xs)"
proof (induction xs arbitrary: a i)
  case Nil
  then show ?case by simp
next
  case (Cons x xs)
  then show ?case by (cases i) simp_all
qed

lemma length_cumsum: "length (cumsum xs) = length xs"
  by (simp add: cumsum_def length_cumsum_from)

lemma cumsum_nth: "i < length xs \<Longrightarrow> cumsum xs ! i = sum_list (take (Suc i) xs)"
  by (simp add: cumsum_def cumsum_from_nth)

lemma sum_list_take_Suc:
  "i < length xs \<Longrightarrow> sum_list (take (Suc i) xs) = sum_list (take i xs) + (xs ! i :: int)"
  by (simp add: take_Suc_conv_app_nth)

lemma sum_list_take_mono:
  assumes "\<forall>x\<in>set xs. (0::int) \<le> x" and "a \<le> b"
  shows "sum_list (take a xs) \<le> sum_list (take b xs)"
proof -
  have "take b xs = take a xs @ take (b - a) (drop a xs)"
    using assms(2) by (metis le_add_diff_inverse take_add)
  moreover have "0 \<le> sum_list (take (b - a) (drop a xs))"
    using assms(1) by (intro sum_list_nonneg) (auto dest: in_set_takeD in_set_dropD)
  ultimately show ?thesis by simp
qed

lemma sum_list_take_le:
  assumes "\<forall>x\<in>set xs. (0::int) \<le> x"
  shows "sum_list (take a xs) \<le> sum_list xs"
proof (cases "a \<le> length xs")
  case True
  from sum_list_take_mono [OF assms True] show ?thesis by simp
next
  case False
  then show ?thesis by simp
qed

lemma mem_thread_indices:
  "i \<in> set (thread_indices tid block_dim n) \<longleftrightarrow> i < n \<and> tid \<le> i \<and> (i - tid) mod block_dim = 0"
  by (auto simp: thread_indices_def)

lemma set_block_indices:
  assumes "0 < block_dim"
  shows "set (block_indices block_dim n) = {0..<n}"
proof
  show "set (block_indices block_dim n) \<subseteq> {0..<n}"
  proof
    fix i assume "i \<in> set (block_indices block_dim n)"
    then obtain tid where "i \<in> set (thread_indices tid block_dim n)"
      by (auto simp: block_indices_def)
    then show "i \<in> {0..<n}" by (simp add: mem_thread_indices)
  qed
  show "{0..<n} \<subseteq> set (block_indices block_dim n)"
  proof
    fix i assume "i \<in> {0..<n}"
    then have i: "i < n" by simp
    have lt: "i mod block_dim < block_dim" using assms by simp
    have le: "i mod block_dim \<le> i" by simp
    have "i - i mod block_dim = block_dim * (i div block_dim)"
      by (rule minus_mod_eq_mult_div)
    then have z: "(i - i mod block_dim) mod block_dim = 0" by simp
    have mem: "i \<in> set (thread_indices (i mod block_dim) block_dim n)"
      unfolding mem_thread_indices using i le z by (intro conjI)
    have tid: "i mod block_dim \<in> set [0..<block_dim]" using lt by simp
    show "i \<in> set (block_indices block_dim n)"
      unfolding block_indices_def set_concat
    proof (rule UN_I)
      show "thread_indices (i mod block_dim) block_dim n
          \<in> set (map (\<lambda>tid. thread_indices tid block_dim n) [0..<block_dim])"
        unfolding set_map using tid by (rule imageI)
      show "i \<in> set (thread_indices (i mod block_dim) block_dim n)" by (rule mem)
    qed
  qed
qed

lemma set_kernel_schedule:
  assumes "0 < grid_dim" "0 < block_dim"
  shows "set (concat (replicate grid_dim (block_indices block_dim n))) = {0..<n}"
  using assms by (cases grid_dim) (simp_all add: set_block_indices)


lemma cumsum_geometry:
  assumes sizes: "length end' = length start"
    and ei: "end_index = cumsum (map2 (-) end' start)"
    and nonneg: "\<forall>i<length start. start ! i \<le> end' ! i"
  shows "length end_index = length start"
    and "\<forall>i<length start. first_slot start end' end_index i = sum_list (take i (map2 (-) end' start))"
    and "\<forall>i<length start. 0 \<le> first_slot start end' end_index i"
    and "\<forall>i<length start. end_index ! i \<le> sum_list (map2 (-) end' start)"
    and "\<forall>i<length start. \<forall>k<length start. i \<noteq> k \<longrightarrow>
        end_index ! i \<le> first_slot start end' end_index k \<or>
        end_index ! k \<le> first_slot start end' end_index i"
proof -
  let ?ls = "map2 (-) end' start"
  have n: "length ?ls = length start" using sizes by simp
  have nth: "?ls ! i = end' ! i - start ! i" if "i < length start" for i
    using that sizes by simp
  have pos: "\<forall>x\<in>set ?ls. 0 \<le> x"
  proof
    fix x assume "x \<in> set ?ls"
    then obtain i where "i < length ?ls" "x = ?ls ! i" by (metis in_set_conv_nth)
    then show "0 \<le> x" using nth nonneg n by simp
  qed
  show len: "length end_index = length start" using ei n by (simp add: length_cumsum)
  have E: "end_index ! i = sum_list (take (Suc i) ?ls)" if "i < length start" for i
    using that n ei by (simp add: cumsum_nth)
  show F: "\<forall>i<length start. first_slot start end' end_index i = sum_list (take i ?ls)"
  proof (intro allI impI)
    fix i assume i: "i < length start"
    have "sum_list (take (Suc i) ?ls) = sum_list (take i ?ls) + ?ls ! i"
      using i n by (intro sum_list_take_Suc) simp
    then show "first_slot start end' end_index i = sum_list (take i ?ls)"
      using E [OF i] nth [OF i] by (simp add: first_slot_def)
  qed
  show "\<forall>i<length start. 0 \<le> first_slot start end' end_index i"
  proof (intro allI impI)
    fix i assume i: "i < length start"
    have "sum_list (take 0 ?ls) \<le> sum_list (take i ?ls)"
      by (rule sum_list_take_mono [OF pos]) simp
    then show "0 \<le> first_slot start end' end_index i" using F i by simp
  qed
  show "\<forall>i<length start. end_index ! i \<le> sum_list ?ls"
    using E sum_list_take_le [OF pos] by simp
  show "\<forall>i<length start. \<forall>k<length start. i \<noteq> k \<longrightarrow>
        end_index ! i \<le> first_slot start end' end_index k \<or>
        end_index ! k \<le> first_slot start end' end_index i"
  proof (intro allI impI)
    fix i k assume i: "i < length start" and k: "k < length start" and ne: "i \<noteq> k"
    have *: "end_index ! a \<le> first_slot start end' end_index b"
      if "a < b" "b < length start" for a b
    proof -
      have "sum_list (take (Suc a) ?ls) \<le> sum_list (take b ?ls)"
        using that by (intro sum_list_take_mono [OF pos]) simp
      then show ?thesis using E [of a] F that by simp
    qed
    from ne consider "i < k" | "k < i" by linarith
    then show "end_index ! i \<le> first_slot start end' end_index k \<or>
        end_index ! k \<le> first_slot start end' end_index i"
      using * i k by cases blast+
  qed
qed

lemma kernel_slots:
  assumes sizes: "length end' = length start" "length index = length start"
    and ei: "end_index = cumsum (map2 (-) end' start)"
    and nonneg: "\<forall>i<length start. start ! i \<le> end' ! i"
    and launch: "0 < grid_dim" "0 < block_dim"
  shows "(sum_list (map2 (-) end' start) \<le> int (length (interval_start out)) \<and>
          sum_list (map2 (-) end' start) \<le> int (length (interval_end out)) \<and>
          sum_list (map2 (-) end' start) \<le> int (length (interval_index out)) \<longrightarrow>
          (\<exists>out'. expand_interval grid_dim block_dim start end' index end_index out 1 = Inr out')) \<and>
         (\<forall>out'. expand_interval grid_dim block_dim start end' index end_index out 1 = Inr out' \<longrightarrow>
            (\<forall>i<length start. \<forall>k. 0 \<le> k \<and> k < end' ! i - start ! i \<longrightarrow>
               (let j = nat (end_index ! i - (end' ! i - start ! i) + k)
                in j < length (interval_start out') \<and> j < length (interval_end out') \<and>
                   j < length (interval_index out') \<and>
                   interval_start out' ! j = start ! i + k \<and>
                   interval_end out' ! j = start ! i + k + 1 \<and>
                   interval_index out' ! j = index ! i)))"
proof (intro conjI impI allI)
  note geo = cumsum_geometry [OF sizes(1) ei nonneg]
  let ?sched = "concat (replicate grid_dim (block_indices block_dim (length start)))"
  have sched: "set ?sched = {0..<length start}" by (rule set_kernel_schedule [OF launch])
  then have in_range: "\<forall>i\<in>set ?sched. i < length start" by simp
  {
    assume room: "sum_list (map2 (-) end' start) \<le> int (length (interval_start out)) \<and>
          sum_list (map2 (-) end' start) \<le> int (length (interval_end out)) \<and>
          sum_list (map2 (-) end' start) \<le> int (length (interval_index out))"
    have "\<forall>i<length start. first_slot start end' end_index i < end_index ! i \<longrightarrow>
        fits (end_index ! i - 1) out"
    proof (intro allI impI)
      fix i assume "i < length start"
      then have "end_index ! i \<le> sum_list (map2 (-) end' start)" using geo(4) by simp
      then show "fits (end_index ! i - 1) out" using room by (simp add: fits_def)
    qed
    from run_fragments_returns [OF sizes(1) geo(1) sizes(2) geo(3) in_range this]
    show "\<exists>out'. expand_interval grid_dim block_dim start end' index end_index out 1 = Inr out'"
      by (simp add: expand_interval_def)
  }
  fix out' i k
  assume run: "expand_interval grid_dim block_dim start end' index end_index out 1 = Inr out'"
    and i: "i < length start" and k: "0 \<le> k \<and> k < end' ! i - start ! i"
  from run have run': "run_fragments start end' index end_index 1 ?sched out = Inr out'"
    by (simp add: expand_interval_def)
  have "\<forall>k\<in>{}. k < length start \<and> slots_hold start end' index end_index k out" by simp
  from run_fragments_effect [OF sizes(1) geo(1) geo(3) geo(5) in_range run' this]
  have "\<forall>k\<in>set ?sched. slots_hold start end' index end_index k out'" by simp
  with sched i have held: "slots_hold start end' index end_index i out'" by simp
  define j where "j = nat (end_index ! i - (end' ! i - start ! i) + k)"
  have f0: "0 \<le> first_slot start end' end_index i" using geo(3) i by simp
  have j: "int j = first_slot start end' end_index i + k"
    using f0 k by (simp add: j_def first_slot_def)
  then have "first_slot start end' end_index i \<le> int j \<and> int j < end_index ! i"
    using k by (simp add: first_slot_def)
  with held have "fits (int j) out' \<and>
        interval_start out' ! j = start ! i + (int j - first_slot start end' end_index i) \<and>
        interval_end out' ! j = start ! i + (int j - first_slot start end' end_index i) + 1 \<and>
        interval_index out' ! j = index ! i"
    by (simp add: slots_hold_def)
  then have "j < length (interval_start out') \<and> j < length (interval_end out') \<and>
                   j < length (interval_index out') \<and>
                   interval_start out' ! j = start ! i + k \<and>
                   interval_end out' ! j = start ! i + k + 1 \<and>
                   interval_index out' ! j = index ! i"
    using j by (simp add: fits_def)
  then show "let j = nat (end_index ! i - (end' ! i - start ! i) + k)
                in j < length (interval_start out') \<and> j < length (interval_end out') \<and>
                   j < length (interval_index out') \<and>
                   interval_start out' ! j = start ! i + k \<and>
                   interval_end out' ! j = start ! i + k + 1 \<and>
                   interval_index out' ! j = index ! i"
    unfolding j_def Let_def .
qed


lemma slots_apart:
  assumes sizes: "length end' = length start"
    and ei: "end_index = cumsum (map2 (-) end' start)"
    and nonneg: "\<forall>i<length start. start ! i \<le> end' ! i"
    and i: "i < length start" "0 \<le> k" "k < end' ! i - start ! i"
    and i': "i' < length start" "0 \<le> k'" "k' < end' ! i' - start ! i'"
    and same: "end_index ! i - (end' ! i - start ! i) + k =
               end_index ! i' - (end' ! i' - start ! i') + k'"
  shows "i = i' \<and> k = k'"
proof -
  note geo = cumsum_geometry [OF sizes ei nonneg]
  have "i = i'"
  proof (rule ccontr)
    assume "i \<noteq> i'"
    with geo(5) i(1) i'(1)
    have "end_index ! i \<le> first_slot start end' end_index i' \<or>
          end_index ! i' \<le> first_slot start end' end_index i" by blast
    then show False using i(2,3) i'(2,3) same by (auto simp: first_slot_def)
  qed
  with same show ?thesis by simp
qed

text \<open>
  Claim C2. Let \<open>end_index\<close> be the inclusive running sum of the fragment lengths
  \<open>end[i] - start[i]\<close>, none of them negative, and let the step be 1. Whenever the
  kernel completes, every fragment \<open>i\<close> and every \<open>k\<close> with \<open>0 \<le> k < len[i]\<close> has
  its slot \<open>j = end_index[i] - len[i] + k\<close> inside the three output arrays, holding
  \<open>interval_start[j] = start[i] + k\<close>, \<open>interval_end[j] = start[i] + k + 1\<close> and
  \<open>interval_index[j] = index[i]\<close>. The kernel does complete when each output array has
  at least as many slots as the fragment lengths sum to. No two covered bases share a slot,
  so each fragment has exactly one unit interval per covered base. This holds for every
  launch geometry with at least one block and one thread.
\<close>

theorem expand_interval_unit_intervals:
  assumes sizes: "length end' = length start" "length index = length start"
    and ei: "end_index = cumsum (map2 (-) end' start)"
    and nonneg: "\<forall>i<length start. start ! i \<le> end' ! i"
    and launch: "0 < grid_dim" "0 < block_dim"
  shows "(sum_list (map2 (-) end' start) \<le> int (length (interval_start out)) \<and>
          sum_list (map2 (-) end' start) \<le> int (length (interval_end out)) \<and>
          sum_list (map2 (-) end' start) \<le> int (length (interval_index out)) \<longrightarrow>
          (\<exists>out'. expand_interval grid_dim block_dim start end' index end_index out 1 = Inr out')) \<and>
         (\<forall>out'. expand_interval grid_dim block_dim start end' index end_index out 1 = Inr out' \<longrightarrow>
            (\<forall>i<length start. \<forall>k. 0 \<le> k \<and> k < end' ! i - start ! i \<longrightarrow>
               (let j = nat (end_index ! i - (end' ! i - start ! i) + k)
                in j < length (interval_start out') \<and> j < length (interval_end out') \<and>
                   j < length (interval_index out') \<and>
                   interval_start out' ! j = start ! i + k \<and>
                   interval_end out' ! j = start ! i + k + 1 \<and>
                   interval_index out' ! j = index ! i))) \<and>
         (\<forall>i<length start. \<forall>i'<length start. \<forall>k k'.
            0 \<le> k \<and> k < end' ! i - start ! i \<and> 0 \<le> k' \<and> k' < end' ! i' - start ! i' \<and>
            end_index ! i - (end' ! i - start ! i) + k =
              end_index ! i' - (end' ! i' - start ! i') + k' \<longrightarrow>
            i = i' \<and> k = k')"
proof -
  note slots = kernel_slots [OF sizes ei nonneg launch, of out]
  have "\<forall>i<length start. \<forall>i'<length start. \<forall>k k'.
            0 \<le> k \<and> k < end' ! i - start ! i \<and> 0 \<le> k' \<and> k' < end' ! i' - start ! i' \<and>
            end_index ! i - (end' ! i - start ! i) + k =
              end_index ! i' - (end' ! i' - start ! i') + k' \<longrightarrow>
            i = i' \<and> k = k'"
    using slots_apart [OF sizes(1) ei nonneg] by blast
  with slots show ?thesis by (intro conjI) (rule conjunct1, assumption, rule conjunct2, assumption, assumption)
qed

theorem expand_interval_unit_intervals_witness:
  "\<exists>out'. expand_interval 1 2 [10, 20] [12, 21] [7, 8] (cumsum (map2 (-) [12, 21] [10, 20]))
       \<lparr>interval_start = [0, 0, 0], interval_end = [0, 0, 0], interval_index = [0, 0, 0]\<rparr> 1
       = Inr out' \<and>
     interval_start out' ! 1 = 11 \<and> interval_end out' ! 1 = 12 \<and> interval_index out' ! 1 = 7"
proof -
  let ?start = "[10, 20 :: int]" and ?end = "[12, 21 :: int]" and ?index = "[7, 8 :: int]"
  let ?out = "\<lparr>interval_start = [0, 0, 0 :: int], interval_end = [0, 0, 0 :: int],
     interval_index = [0, 0, 0 :: int]\<rparr>"
  have h1: "length ?end = length ?start" and h2: "length ?index = length ?start" by simp_all
  have h3: "\<forall>i<length ?start. ?start ! i \<le> ?end ! i" by (simp add: All_less_Suc)
  have h4: "(0::nat) < 1" and h5: "(0::nat) < 2" by simp_all
  note t = expand_interval_unit_intervals [OF h1 h2 refl h3 h4 h5, of ?out]
  have "sum_list (map2 (-) ?end ?start) \<le> int (length (interval_start ?out)) \<and>
        sum_list (map2 (-) ?end ?start) \<le> int (length (interval_end ?out)) \<and>
        sum_list (map2 (-) ?end ?start) \<le> int (length (interval_index ?out))" by simp
  with t obtain out' where
    run: "expand_interval 1 2 ?start ?end ?index (cumsum (map2 (-) ?end ?start)) ?out 1 = Inr out'"
    by blast
  from t run have "\<forall>i<length ?start. \<forall>k. 0 \<le> k \<and> k < ?end ! i - ?start ! i \<longrightarrow>
       (let j = nat (cumsum (map2 (-) ?end ?start) ! i - (?end ! i - ?start ! i) + k)
        in j < length (interval_start out') \<and> j < length (interval_end out') \<and>
           j < length (interval_index out') \<and>
           interval_start out' ! j = ?start ! i + k \<and>
           interval_end out' ! j = ?start ! i + k + 1 \<and>
           interval_index out' ! j = ?index ! i)" by blast
  moreover have "0 < length ?start" by simp
  ultimately have "(0::int) \<le> 1 \<and> 1 < ?end ! 0 - ?start ! 0 \<longrightarrow>
       (let j = nat (cumsum (map2 (-) ?end ?start) ! 0 - (?end ! 0 - ?start ! 0) + 1)
        in j < length (interval_start out') \<and> j < length (interval_end out') \<and>
           j < length (interval_index out') \<and>
           interval_start out' ! j = ?start ! 0 + 1 \<and>
           interval_end out' ! j = ?start ! 0 + 1 + 1 \<and>
           interval_index out' ! j = ?index ! 0)" by blast
  then have "interval_start out' ! 1 = 11 \<and> interval_end out' ! 1 = 12 \<and>
     interval_index out' ! 1 = 7"
    by (simp add: cumsum_def)
  with run show ?thesis by blast
qed

section \<open>The kernel in closed form\<close>

lemma inner_loop_error:
  "0 \<le> j \<Longrightarrow> inner_loop index i j stop 1 c out = Inl e \<Longrightarrow> e = OutOfBounds"
proof (induction "nat (stop - j)" arbitrary: j c out)
  case 0
  then have "\<not> j < stop" by simp
  with 0 show ?case by (simp add: inner_loop_unit)
next
  case (Suc d)
  then have lt: "j < stop" by linarith
  let ?mid = "\<lparr>interval_start = (interval_start out)[nat j := c],
                interval_end = (interval_end out)[nat j := c + 1],
                interval_index = (interval_index out)[nat j := index ! i]\<rparr>"
  have unf: "inner_loop index i j stop 1 c out =
      (case write_slot index i j c out of Inl e \<Rightarrow> Inl e
       | Inr mid \<Rightarrow> inner_loop index i (j + 1) stop 1 (c + 1) mid)"
    using lt by (subst inner_loop_unit) simp
  have ws: "write_slot index i j c out =
      (if fits j out \<and> i < length index then Inr ?mid else Inl OutOfBounds)"
    using Suc.prems(1) by (rule write_slot_nonneg)
  show ?case
  proof (cases "fits j out \<and> i < length index")
    case True
    then have run: "inner_loop index i (j + 1) stop 1 (c + 1) ?mid = Inl e"
      using unf ws Suc.prems(2) by simp
    have d: "d = nat (stop - (j + 1))" using Suc.hyps(2) by linarith
    have j1: "0 \<le> j + 1" using Suc.prems(1) by simp
    from Suc.hyps(1) [OF d j1 run] show ?thesis .
  next
    case False
    then have "write_slot index i j c out = Inl OutOfBounds" using ws by simp
    then have "inner_loop index i j stop 1 c out = Inl OutOfBounds" using unf by simp
    with Suc.prems(2) show ?thesis by simp
  qed
qed

lemma write_slot_fails: "write_slot index i j c out = Inl e \<Longrightarrow> e = OutOfBounds"
  by (auto simp: write_slot_def and_then_def store_def load_def Let_def
      split: if_splits sum.splits)

lemma inner_loop_fails:
  "inner_loop index i j stop 1 c out = Inl e \<Longrightarrow> e = OutOfBounds"
proof (induction "nat (stop - j)" arbitrary: j c out)
  case 0
  then have "\<not> j < stop" by simp
  with 0 show ?case by (simp add: inner_loop_unit)
next
  case (Suc d)
  then have lt: "j < stop" by linarith
  have unf: "inner_loop index i j stop 1 c out =
      (case write_slot index i j c out of Inl e \<Rightarrow> Inl e
       | Inr mid \<Rightarrow> inner_loop index i (j + 1) stop 1 (c + 1) mid)"
    using lt by (subst inner_loop_unit) simp
  show ?case
  proof (cases "write_slot index i j c out")
    case (Inl e')
    then have "e' = e" using unf Suc.prems by simp
    with Inl show ?thesis using write_slot_fails by blast
  next
    case (Inr mid)
    then have run: "inner_loop index i (j + 1) stop 1 (c + 1) mid = Inl e"
      using unf Suc.prems by simp
    have d: "d = nat (stop - (j + 1))" using Suc.hyps(2) by linarith
    from Suc.hyps(1) [OF d run] show ?thesis .
  qed
qed

lemma expand_fragment_fails:
  assumes "expand_fragment start end' index end_index 1 i out = Inl e"
  shows "e = OutOfBounds"
proof (cases "i < length end_index \<and> i < length end' \<and> i < length start")
  case True
  then have "expand_fragment start end' index end_index 1 i out =
      inner_loop index i (end_index ! i - (end' ! i - start ! i)) (end_index ! i) 1 (start ! i) out"
    by (simp add: expand_fragment_def and_then_def load_def)
  with assms have "inner_loop index i (end_index ! i - (end' ! i - start ! i)) (end_index ! i) 1
      (start ! i) out = Inl e"
    by (simp only:)
  then show ?thesis by (rule inner_loop_fails)
next
  case False
  then have "expand_fragment start end' index end_index 1 i out = Inl OutOfBounds"
    by (auto simp: expand_fragment_def and_then_def load_def)
  with assms show ?thesis by simp
qed

lemma run_fragments_fails:
  "run_fragments start end' index end_index 1 is out = Inl e \<Longrightarrow> e = OutOfBounds"
proof (induction "is" arbitrary: out)
  case Nil
  then show ?case by simp
next
  case (Cons i "is")
  show ?case
  proof (cases "expand_fragment start end' index end_index 1 i out")
    case (Inl e')
    then have "e' = e" using Cons.prems by simp
    with Inl show ?thesis using expand_fragment_fails by blast
  next
    case (Inr mid)
    then have "run_fragments start end' index end_index 1 is mid = Inl e"
      using Cons.prems by simp
    then show ?thesis by (rule Cons.IH)
  qed
qed

lemma expand_interval_fails:
  "expand_interval grid_dim block_dim start end' index end_index out 1 = Inl e \<Longrightarrow>
     e = OutOfBounds"
  unfolding expand_interval_def by (rule run_fragments_fails)

lemma run_fragments_error:
  assumes sizes: "length end' = length start" "length end_index = length start"
    and nonneg: "\<forall>i<length start. 0 \<le> first_slot start end' end_index i"
  shows "\<forall>i\<in>set is. i < length start \<Longrightarrow>
     run_fragments start end' index end_index 1 is out = Inl e \<Longrightarrow> e = OutOfBounds"
proof (induction "is" arbitrary: out)
  case Nil
  then show ?case by simp
next
  case (Cons i "is")
  from Cons.prems(1) have i: "i < length start" by simp
  have i': "i < length end'" "i < length end_index" using i sizes by simp_all
  have nn: "0 \<le> first_slot start end' end_index i" using nonneg i by simp
  show ?case
  proof (cases "expand_fragment start end' index end_index 1 i out")
    case (Inl e')
    then have "e' = e" using Cons.prems(2) by simp
    moreover from Inl have "inner_loop index i (first_slot start end' end_index i) (end_index ! i) 1
      (start ! i) out = Inl e'" using i i' by (simp add: expand_fragment_unit)
    ultimately show ?thesis using inner_loop_error [OF nn] by simp
  next
    case (Inr mid)
    then have "run_fragments start end' index end_index 1 is mid = Inl e"
      using Cons.prems(2) by simp
    moreover from Cons.prems(1) have "\<forall>i\<in>set is. i < length start" by simp
    ultimately show ?thesis using Cons.IH by blast
  qed
qed

lemma run_fragments_frame:
  assumes sizes: "length end' = length start" "length end_index = length start"
    and nonneg: "\<forall>i<length start. 0 \<le> first_slot start end' end_index i"
  shows "\<forall>i\<in>set is. i < length start \<Longrightarrow>
     run_fragments start end' index end_index 1 is out = Inr out' \<Longrightarrow>
     \<forall>i\<in>set is. \<not> (first_slot start end' end_index i \<le> int m \<and> int m < end_index ! i) \<Longrightarrow>
     interval_start out' ! m = interval_start out ! m \<and>
     interval_end out' ! m = interval_end out ! m \<and>
     interval_index out' ! m = interval_index out ! m"
proof (induction "is" arbitrary: out)
  case Nil
  then show ?case by simp
next
  case (Cons i "is")
  from Cons.prems(1) have i: "i < length start" by simp
  from Cons.prems(2) obtain mid where
    frag: "expand_fragment start end' index end_index 1 i out = Inr mid" and
    rest: "run_fragments start end' index end_index 1 is mid = Inr out'"
    by (auto split: sum.splits)
  have i': "i < length end'" "i < length end_index" using i sizes by simp_all
  have nn: "0 \<le> first_slot start end' end_index i" using nonneg i by simp
  note eff = expand_fragment_effect [OF i i' nn frag]
  from Cons.prems(3) have "\<not> (first_slot start end' end_index i \<le> int m \<and> int m < end_index ! i)"
    by simp
  from eff(3) [OF this] have a: "interval_start mid ! m = interval_start out ! m \<and>
     interval_end mid ! m = interval_end out ! m \<and>
     interval_index mid ! m = interval_index out ! m" .
  from Cons.prems(1) have b: "\<forall>i\<in>set is. i < length start" by simp
  from Cons.prems(3) have c: "\<forall>i\<in>set is.
     \<not> (first_slot start end' end_index i \<le> int m \<and> int m < end_index ! i)" by simp
  from Cons.IH [OF b rest c] a show ?case by simp
qed


lemma kernel_schedule_in_range:
  "\<forall>i\<in>set (concat (replicate grid_dim (block_indices block_dim n))). i < n"
proof
  fix i assume "i \<in> set (concat (replicate grid_dim (block_indices block_dim n)))"
  then have "i \<in> set (block_indices block_dim n)" by (cases grid_dim) auto
  then obtain tid where "i \<in> set (thread_indices tid block_dim n)"
    by (auto simp: block_indices_def)
  then show "i < n" by (simp add: mem_thread_indices)
qed

lemma owner_None:
  "owner start end' end_index m = None \<Longrightarrow> i < length start \<Longrightarrow>
     \<not> (first_slot start end' end_index i \<le> int m \<and> int m < end_index ! i)"
  by (simp add: owner_def find_None_iff)

lemma owner_Some:
  "owner start end' end_index m = Some i \<Longrightarrow>
     i < length start \<and> first_slot start end' end_index i \<le> int m \<and> int m < end_index ! i"
  by (auto simp: owner_def find_Some_iff)

lemma kernel_eq_expansion:
  assumes sizes: "length end' = length start" "length index = length start"
    and ei: "end_index = cumsum (map2 (-) end' start)"
    and nonneg: "\<forall>i<length start. start ! i \<le> end' ! i"
    and launch: "0 < block_dim" "0 < grid_dim \<or> start = []"
    and room: "sum_list (map2 (-) end' start) \<le> int (length (interval_start out))"
      "sum_list (map2 (-) end' start) \<le> int (length (interval_end out))"
      "sum_list (map2 (-) end' start) \<le> int (length (interval_index out))"
  shows "expand_interval grid_dim block_dim start end' index end_index out 1 =
     Inr (expansion start end' index end_index out)"
proof -
  note geo = cumsum_geometry [OF sizes(1) ei nonneg]
  let ?sched = "concat (replicate grid_dim (block_indices block_dim (length start)))"
  have in_range: "\<forall>i\<in>set ?sched. i < length start" by (rule kernel_schedule_in_range)
  have sched: "i \<in> set ?sched" if "i < length start" for i
  proof -
    from that launch(2) have "0 < grid_dim" by auto
    from set_kernel_schedule [OF this launch(1)] that show ?thesis by simp
  qed
  have "\<forall>i<length start. first_slot start end' end_index i < end_index ! i \<longrightarrow>
      fits (end_index ! i - 1) out"
  proof (intro allI impI)
    fix i assume "i < length start"
    then have "end_index ! i \<le> sum_list (map2 (-) end' start)" using geo(4) by simp
    then show "fits (end_index ! i - 1) out" using room by (simp add: fits_def)
  qed
  from run_fragments_returns [OF sizes(1) geo(1) sizes(2) geo(3) in_range this]
  obtain out' where run: "run_fragments start end' index end_index 1 ?sched out = Inr out'"
    by blast
  have "\<forall>k\<in>{}. k < length start \<and> slots_hold start end' index end_index k out" by simp
  from run_fragments_effect [OF sizes(1) geo(1) geo(3) geo(5) in_range run this]
  have sz: "same_sizes out' out"
    and held: "\<forall>k\<in>set ?sched. slots_hold start end' index end_index k out'" by simp_all
  note frame = run_fragments_frame [OF sizes(1) geo(1) geo(3) in_range run]
  have cell: "interval_start out' ! m =
        (case owner start end' end_index m of None \<Rightarrow> interval_start out ! m
         | Some i \<Rightarrow> start ! i + (int m - first_slot start end' end_index i)) \<and>
      interval_end out' ! m =
        (case owner start end' end_index m of None \<Rightarrow> interval_end out ! m
         | Some i \<Rightarrow> start ! i + (int m - first_slot start end' end_index i) + 1) \<and>
      interval_index out' ! m =
        (case owner start end' end_index m of None \<Rightarrow> interval_index out ! m
         | Some i \<Rightarrow> index ! i)" for m
  proof (cases "owner start end' end_index m")
    case None
    have "\<forall>i\<in>set ?sched.
        \<not> (first_slot start end' end_index i \<le> int m \<and> int m < end_index ! i)"
      using owner_None [OF None] in_range by blast
    from frame [OF this] None show ?thesis by simp
  next
    case (Some i)
    from owner_Some [OF Some] have i: "i < length start"
      and m: "first_slot start end' end_index i \<le> int m \<and> int m < end_index ! i" by simp_all
    from held sched [OF i] have "slots_hold start end' index end_index i out'" by blast
    with m Some show ?thesis by (simp add: slots_hold_def)
  qed
  have "interval_start out' = interval_start (expansion start end' index end_index out)"
    using sz cell by (intro nth_equalityI) (simp_all add: expansion_def same_sizes_def cong: option.case_cong)
  moreover have "interval_end out' = interval_end (expansion start end' index end_index out)"
    using sz cell by (intro nth_equalityI) (simp_all add: expansion_def same_sizes_def cong: option.case_cong)
  moreover have "interval_index out' = interval_index (expansion start end' index end_index out)"
    using sz cell by (intro nth_equalityI) (simp_all add: expansion_def same_sizes_def cong: option.case_cong)
  ultimately have "out' = expansion start end' index end_index out" by simp
  with run show ?thesis by (simp add: expand_interval_def)
qed

lemma kernel_overrun:
  assumes sizes: "length end' = length start" "length index = length start"
    and ei: "end_index = cumsum (map2 (-) end' start)"
    and nonneg: "\<forall>i<length start. start ! i \<le> end' ! i"
    and launch: "0 < block_dim" "0 < grid_dim"
    and i: "i < length start" "start ! i < end' ! i"
    and over: "\<not> fits (end_index ! i - 1) out"
  shows "expand_interval grid_dim block_dim start end' index end_index out 1 = Inl OutOfBounds"
proof -
  note geo = cumsum_geometry [OF sizes(1) ei nonneg]
  let ?sched = "concat (replicate grid_dim (block_indices block_dim (length start)))"
  have in_range: "\<forall>i\<in>set ?sched. i < length start" by (rule kernel_schedule_in_range)
  have sched: "i \<in> set ?sched"
    using set_kernel_schedule [OF launch(2) launch(1)] i(1) by simp
  show ?thesis
  proof (cases "run_fragments start end' index end_index 1 ?sched out")
    case (Inl e)
    from run_fragments_error [OF sizes(1) geo(1) geo(3) in_range Inl]
    show ?thesis using Inl by (simp add: expand_interval_def)
  next
    case (Inr out')
    have "\<forall>k\<in>{}. k < length start \<and> slots_hold start end' index end_index k out" by simp
    from run_fragments_effect [OF sizes(1) geo(1) geo(3) geo(5) in_range Inr this]
    have sz: "same_sizes out' out"
      and held: "\<forall>k\<in>set ?sched. slots_hold start end' index end_index k out'" by simp_all
    from held sched have h: "slots_hold start end' index end_index i out'" by blast
    have f0: "0 \<le> first_slot start end' end_index i" using geo(3) i(1) by simp
    have lt: "first_slot start end' end_index i < end_index ! i"
      using i(2) by (simp add: first_slot_def)
    define m where "m = nat (end_index ! i - 1)"
    have m: "int m = end_index ! i - 1" using f0 lt by (simp add: m_def)
    then have "first_slot start end' end_index i \<le> int m \<and> int m < end_index ! i"
      using lt by simp
    with h have "fits (int m) out'" by (simp add: slots_hold_def)
    then have "fits (end_index ! i - 1) out" using m fits_same_sizes [OF sz] by simp
    with over show ?thesis by simp
  qed
qed

section \<open>The coverage array\<close>

lemma sum_list_insort_key:
  "sum_list (map g (insort_key f x xs)) = (g x :: int) + sum_list (map g xs)"
  by (induction xs) simp_all

lemma sum_list_sort_key: "sum_list (map g (sort_key f xs)) = (sum_list (map g xs) :: int)"
  by (induction xs) (simp_all add: sum_list_insort_key)

lemma get_coverages_result:
  assumes "\<sigma> ! reads_orig = Reads rows0"
  shows "fst (get_coverages block_dim \<sigma> reads_orig chrom start end' pad) =
     (let rs = sort_key read_row_num rows0;
          window_size = end' - start + 2 * pad
      in if window_size < 0 then Inl ValueError
         else case kernel_launch block_dim rs (nat window_size) of
                Inl e \<Rightarrow> Inl e
              | Inr written \<Rightarrow>
                  Inr (fill_tracks (summed_coverage_of written rs)
                    start end' pad (enumerate_list (clusters_of rs))
                    \<lparr>nrows = length (clusters_of rs), ncols = nat window_size,
                     rows = replicate (length (clusters_of rs)) (replicate (nat window_size) 0)\<rparr>))"
  using assms
  by (simp add: get_coverages_def alloc_def Let_def np_zeros_def kernel_launch_def
      summed_coverage_of_def split: sum.splits)

lemma get_coverages_store:
  assumes "\<sigma> ! reads_orig = Reads rows0"
  shows "snd (get_coverages block_dim \<sigma> reads_orig chrom start end' pad) =
     (let rs = sort_key read_row_num rows0;
          window_size = end' - start + 2 * pad
      in if window_size < 0
         then Some (\<sigma> @ [Reads rows0, Reads rs, Reads rs])
         else case kernel_launch block_dim rs (nat window_size) of
                Inl e \<Rightarrow> None
              | Inr written \<Rightarrow>
                  Some (\<sigma> @ [Reads rows0, Reads rs, Info (map drop_start_end rs),
                              Expanded (as_int32 written)]))"
  using assms
  by (simp add: get_coverages_def alloc_def Let_def np_zeros_def kernel_launch_def
      nth_append list_update_append split: sum.splits)

lemma get_coverages_store_other:
  assumes "\<forall>rows0. \<sigma> ! reads_orig \<noteq> Reads rows0"
  shows "get_coverages block_dim \<sigma> reads_orig chrom start end' pad = (Inl KeyError, Some \<sigma>)"
  using assms by (simp add: get_coverages_def split: frame.splits)

lemma len_column:
  "list_all read_ok rs \<Longrightarrow> map read_len rs = map2 (-) (map read_end rs) (map read_start rs)"
  by (induction rs) (simp_all add: read_ok_def)

lemma forall_launch_grid:
  "0 < block_dim \<Longrightarrow> 0 < (n + block_dim - 1) div block_dim \<or> n = (0::nat)"
proof (cases "n = 0")
  case True
  then show ?thesis by simp
next
  case False
  assume "0 < block_dim"
  moreover from False have "block_dim \<le> n + block_dim - 1" by arith
  ultimately have "0 < (n + block_dim - 1) div block_dim"
    by (simp only: div_greater_zero_iff)
  then show ?thesis by simp
qed

lemma list_all_sort_key: "list_all P (sort_key f xs) = list_all P xs"
  by (simp add: list_all_iff)

lemma launch_in_bounds:
  assumes ok: "list_all read_ok rs" and bd: "0 < block_dim"
    and room: "sum_list (map read_len rs) \<le> int w"
  shows "kernel_launch block_dim rs w =
         Inr (expanded_reads rs w)"
proof -
  have col: "map read_len rs = map2 (-) (map read_end rs) (map read_start rs)"
    by (rule len_column [OF ok])
  have nonneg: "\<forall>i<length (map read_start rs). map read_start rs ! i \<le> map read_end rs ! i"
    using ok by (simp add: list_all_length read_ok_def)
  have grid: "0 < (length rs + block_dim - 1) div block_dim \<or> map read_start rs = []"
    using forall_launch_grid [OF bd, of "length rs"] by simp
  have ei: "cumsum (map read_len rs) = cumsum (map2 (-) (map read_end rs) (map read_start rs))"
    using col by simp
  have r: "sum_list (map2 (-) (map read_end rs) (map read_start rs)) \<le> int w"
    using room col by simp
  show ?thesis
    unfolding expanded_reads_def kernel_launch_def
    by (rule kernel_eq_expansion [OF _ _ ei nonneg bd grid]) (simp_all add: r)
qed

lemma launch_overrun:
  assumes ok: "list_all read_ok rs" and bd: "0 < block_dim"
    and i: "i < length rs" "read_start (rs ! i) < read_end (rs ! i)"
    and over: "int w < cumsum (map read_len rs) ! i"
  shows "kernel_launch block_dim rs w =
         Inl OutOfBounds"
proof -
  have col: "map read_len rs = map2 (-) (map read_end rs) (map read_start rs)"
    by (rule len_column [OF ok])
  have nonneg: "\<forall>i<length (map read_start rs). map read_start rs ! i \<le> map read_end rs ! i"
    using ok by (simp add: list_all_length read_ok_def)
  have grid: "0 < (length rs + block_dim - 1) div block_dim"
    using forall_launch_grid [OF bd, of "length rs"] i(1) by auto
  have ei: "cumsum (map read_len rs) = cumsum (map2 (-) (map read_end rs) (map read_start rs))"
    using col by simp
  have i': "i < length (map read_start rs)" "map read_start rs ! i < map read_end rs ! i"
    using i by simp_all
  have "\<not> fits (cumsum (map read_len rs) ! i - 1)
      \<lparr>interval_start = replicate w 0, interval_end = replicate w 0,
       interval_index = replicate w 0\<rparr>"
    using over by (simp add: fits_def)
  from kernel_overrun [OF _ _ ei nonneg bd grid i' this] show ?thesis
    by (simp add: kernel_launch_def)
qed

lemma get_coverages_in_bounds:
  assumes frame: "\<sigma> ! reads_orig = Reads rows0"
    and ok: "list_all read_ok rows0" and bd: "0 < block_dim"
    and window: "0 \<le> end' - start + 2 * pad"
    and room: "sum_list (map read_len rows0) \<le> end' - start + 2 * pad"
  shows "fst (get_coverages block_dim \<sigma> reads_orig chrom start end' pad) =
     (let rs = sort_key read_row_num rows0; w = nat (end' - start + 2 * pad)
      in Inr (fill_tracks (summed_coverage_of (expanded_reads rs w) rs)
           start end' pad (enumerate_list (clusters_of rs))
           \<lparr>nrows = length (clusters_of rs), ncols = w,
            rows = replicate (length (clusters_of rs)) (replicate w 0)\<rparr>))"
proof -
  let ?rs = "sort_key read_row_num rows0" and ?w = "nat (end' - start + 2 * pad)"
  have "list_all read_ok ?rs" using ok by (simp add: list_all_sort_key)
  moreover have "sum_list (map read_len ?rs) \<le> int ?w"
    using room window by (simp add: sum_list_sort_key)
  ultimately have "kernel_launch block_dim ?rs ?w = Inr (expanded_reads ?rs ?w)"
    using bd by (intro launch_in_bounds)
  then show ?thesis using window
    by (simp add: get_coverages_result [OF frame] Let_def)
qed

lemma scatter_length: "length (scatter row cvs) = length row"
  unfolding scatter_def by (induction cvs arbitrary: row) (simp_all add: split_def)

lemma cluster_track_length:
  "length (cluster_track summed_coverage start end' pad cluster row) = length row"
  by (simp add: cluster_track_def Let_def scatter_length)

lemma map_length_update:
  "length y = length (xs ! i) \<Longrightarrow> map length (xs[i := y]) = map length xs"
proof (induction xs arbitrary: i)
  case Nil
  then show ?case by simp
next
  case (Cons a xs)
  then show ?case by (cases i) simp_all
qed

lemma fill_tracks_shape:
  "nrows (fill_tracks summed_coverage start end' pad ics x) = nrows x \<and>
   ncols (fill_tracks summed_coverage start end' pad ics x) = ncols x \<and>
   map length (rows (fill_tracks summed_coverage start end' pad ics x)) = map length (rows x)"
proof (induction ics arbitrary: x)
  case Nil
  then show ?case by simp
next
  case (Cons ic ics)
  obtain i c where ic: "ic = (i, c)" by (cases ic)
  show ?case
    unfolding ic fill_tracks.simps
    by (simp add: Cons.IH map_length_update cluster_track_length)
qed

lemma fill_tracks_wf:
  assumes "wf2d x"
  shows "wf2d (fill_tracks summed_coverage start end' pad ics x)"
proof -
  note sh = fill_tracks_shape [of summed_coverage start end' pad ics x]
  have "list_all (\<lambda>r. length r = n) rs \<longleftrightarrow> list_all (\<lambda>l. l = n) (map length rs)"
    for n and rs :: "real list list"
    by (simp add: list_all_iff)
  moreover have "length (rows (fill_tracks summed_coverage start end' pad ics x)) = length (rows x)"
    using sh by (metis length_map)
  ultimately show ?thesis using assms sh by (simp add: wf2d_def)
qed

lemma fill_tracks_rows:
  "distinct (map fst ics) \<Longrightarrow> i < length (rows x) \<Longrightarrow>
   rows (fill_tracks summed_coverage start end' pad ics x) ! i =
     (case map_of ics i of
        None \<Rightarrow> rows x ! i
      | Some c \<Rightarrow> cluster_track summed_coverage start end' pad c (rows x ! i))"
proof (induction ics arbitrary: x)
  case Nil
  then show ?case by simp
next
  case (Cons jc ics)
  obtain j c where jc: "jc = (j, c)" by (cases jc)
  let ?x' = "x\<lparr>rows := (rows x)[j := cluster_track summed_coverage start end' pad c (rows x ! j)]\<rparr>"
  from Cons.prems jc have d: "distinct (map fst ics)" and fresh: "j \<notin> fst ` set ics" by simp_all
  have len: "i < length (rows ?x')" using Cons.prems(2) by simp
  have IH: "rows (fill_tracks summed_coverage start end' pad ics ?x') ! i =
     (case map_of ics i of
        None \<Rightarrow> rows ?x' ! i
      | Some c \<Rightarrow> cluster_track summed_coverage start end' pad c (rows ?x' ! i))"
    by (rule Cons.IH [OF d len])
  show ?case
  proof (cases "i = j")
    case True
    from fresh have "map_of ics j = None" by (simp add: map_of_eq_None_iff)
    with IH True Cons.prems(2) show ?thesis by (simp add: jc cong: option.case_cong)
  next
    case False
    with IH show ?thesis by (simp add: jc cong: option.case_cong)
  qed
qed

lemma enumerate_list_lookup:
  "i < length cs \<Longrightarrow> map_of (enumerate_list cs) i = Some (cs ! i)"
  using map_of_zip_nth [of "[0..<length cs]" cs i] by (simp add: enumerate_list_def)

lemma clusters_of_sort_key:
  "clusters_of (sort_key f rows0) = sorted_list_of_set (read_cluster ` set rows0)"
proof -
  have "sorted_list_of_set (set (map read_cluster (sort_key f rows0))) =
      sort (remdups (map read_cluster (sort_key f rows0)))"
    by (rule sorted_list_of_set_sort_remdups)
  then show ?thesis by (simp add: clusters_of_def)
qed

text \<open>
  Whenever \<open>get_coverages\<close> returns an array, the window is not negative, the kernel has
  stayed inside its columns, and the array is the one filled from the summed coverage of
  what the kernel wrote: it is rectangular, has one row per distinct cluster value and
  \<open>end - start + 2*pad\<close> columns, and row \<open>i\<close> is the track of the \<open>i\<close>-th cluster value
  in ascending order.
\<close>

lemma get_coverages_array:
  assumes frame: "\<sigma> ! reads_orig = Reads rows0"
    and ret: "fst (get_coverages block_dim \<sigma> reads_orig chrom start end' pad) = Inr x"
  shows "0 \<le> end' - start + 2 * pad"
    and "\<exists>written.
           kernel_launch block_dim (sort_key read_row_num rows0) (nat (end' - start + 2 * pad)) =
             Inr written \<and>
           x = fill_tracks (summed_coverage_of written (sort_key read_row_num rows0))
             start end' pad
             (enumerate_list (sorted_list_of_set (read_cluster ` set rows0)))
             \<lparr>nrows = card (read_cluster ` set rows0), ncols = nat (end' - start + 2 * pad),
              rows = replicate (card (read_cluster ` set rows0))
                       (replicate (nat (end' - start + 2 * pad)) 0)\<rparr>"
proof -
  note r = ret [unfolded get_coverages_result [OF frame] Let_def]
  show w: "0 \<le> end' - start + 2 * pad"
  proof (rule ccontr)
    assume "\<not> ?thesis"
    then show False using r by simp
  qed
  have card: "length (sorted_list_of_set (read_cluster ` set rows0)) = card (read_cluster ` set rows0)"
    by simp
  from r w show "\<exists>written.
           kernel_launch block_dim (sort_key read_row_num rows0) (nat (end' - start + 2 * pad)) =
             Inr written \<and>
           x = fill_tracks (summed_coverage_of written (sort_key read_row_num rows0))
             start end' pad
             (enumerate_list (sorted_list_of_set (read_cluster ` set rows0)))
             \<lparr>nrows = card (read_cluster ` set rows0), ncols = nat (end' - start + 2 * pad),
              rows = replicate (card (read_cluster ` set rows0))
                       (replicate (nat (end' - start + 2 * pad)) 0)\<rparr>"
    by (auto simp: clusters_of_sort_key card split: sum.splits)
qed

lemma get_coverages_array_shape:
  assumes frame: "\<sigma> ! reads_orig = Reads rows0"
    and ret: "fst (get_coverages block_dim \<sigma> reads_orig chrom start end' pad) = Inr x"
  shows "wf2d x \<and> nrows x = card (read_cluster ` set rows0) \<and>
         int (ncols x) = end' - start + 2 * pad \<and>
         (\<exists>written.
            kernel_launch block_dim (sort_key read_row_num rows0) (ncols x) = Inr written \<and>
            (\<forall>i<nrows x.
               rows x ! i =
                 cluster_track (summed_coverage_of written (sort_key read_row_num rows0))
                   start end' pad (sorted_list_of_set (read_cluster ` set rows0) ! i)
                   (replicate (ncols x) 0)))"
proof -
  let ?cs = "sorted_list_of_set (read_cluster ` set rows0)"
  let ?rs = "sort_key read_row_num rows0"
  let ?n = "card (read_cluster ` set rows0)" and ?w = "nat (end' - start + 2 * pad)"
  let ?x0 = "\<lparr>nrows = ?n, ncols = ?w, rows = replicate ?n (replicate ?w 0)\<rparr>"
  from get_coverages_array [OF frame ret] obtain written where
    w: "0 \<le> end' - start + 2 * pad" and
    k: "kernel_launch block_dim ?rs ?w = Inr written" and
    x: "x = fill_tracks (summed_coverage_of written ?rs) start end' pad (enumerate_list ?cs) ?x0"
    by blast
  let ?S = "summed_coverage_of written ?rs"
  have wf0: "wf2d ?x0" by (simp add: wf2d_def list_all_iff)
  note sh = fill_tracks_shape [of ?S start end' pad "enumerate_list ?cs" ?x0]
  have wf: "wf2d x" unfolding x by (rule fill_tracks_wf [OF wf0])
  have n: "nrows x = ?n" using sh x by simp
  have c: "ncols x = ?w" using sh x by simp
  have len: "length ?cs = ?n" by simp
  have "\<forall>i<nrows x. rows x ! i = cluster_track ?S start end' pad (?cs ! i) (replicate (ncols x) 0)"
  proof (intro allI impI)
    fix i assume i: "i < nrows x"
    have d: "distinct (map fst (enumerate_list ?cs))" by (simp add: enumerate_list_def)
    have i0: "i < length (rows ?x0)" using i n by simp
    have "map_of (enumerate_list ?cs) i = Some (?cs ! i)"
      using i n len by (intro enumerate_list_lookup) simp
    with fill_tracks_rows [OF d i0, of ?S start end' pad] i n c
    show "rows x ! i = cluster_track ?S start end' pad (?cs ! i) (replicate (ncols x) 0)"
      by (simp add: x)
  qed
  with k c have "\<exists>written.
            kernel_launch block_dim ?rs (ncols x) = Inr written \<and>
            (\<forall>i<nrows x.
               rows x ! i = cluster_track (summed_coverage_of written ?rs)
                   start end' pad (?cs ! i) (replicate (ncols x) 0))" by auto
  with wf n c w show ?thesis by simp
qed

text \<open>
  The frames: whenever the kernel stays inside its columns, every frame that existed before
  the call is the same after it, the one \<open>reads_orig\<close> refers to among them; the call
  only adds frames. When the kernel leaves its columns, the frames are not determined.
\<close>

lemma get_coverages_frames:
  "snd (get_coverages block_dim \<sigma> reads_orig chrom start end' pad) = Some \<sigma>' \<Longrightarrow>
     take (length \<sigma>) \<sigma>' = \<sigma>"
proof (cases "\<exists>rows0. \<sigma> ! reads_orig = Reads rows0")
  case True
  then obtain rows0 where frame: "\<sigma> ! reads_orig = Reads rows0" ..
  assume "snd (get_coverages block_dim \<sigma> reads_orig chrom start end' pad) = Some \<sigma>'"
  then show ?thesis
    unfolding get_coverages_store [OF frame] Let_def
    by (auto split: if_splits sum.splits)
next
  case False
  then have "\<forall>rows0. \<sigma> ! reads_orig \<noteq> Reads rows0" by simp
  from get_coverages_store_other [OF this]
  have "snd (get_coverages block_dim \<sigma> reads_orig chrom start end' pad) = Some \<sigma>" by simp
  moreover assume "snd (get_coverages block_dim \<sigma> reads_orig chrom start end' pad) = Some \<sigma>'"
  ultimately show ?thesis by simp
qed

lemma get_coverages_undetermined:
  "snd (get_coverages block_dim \<sigma> reads_orig chrom start end' pad) = None \<longleftrightarrow>
   fst (get_coverages block_dim \<sigma> reads_orig chrom start end' pad) = Inl OutOfBounds"
proof (cases "\<exists>rows0. \<sigma> ! reads_orig = Reads rows0")
  case True
  then obtain rows0 where frame: "\<sigma> ! reads_orig = Reads rows0" ..
  show ?thesis
    unfolding get_coverages_store [OF frame] get_coverages_result [OF frame] Let_def
             kernel_launch_def
    by (auto split: sum.splits dest: expand_interval_fails)
next
  case False
  then have "\<forall>rows0. \<sigma> ! reads_orig \<noteq> Reads rows0" by simp
  from get_coverages_store_other [OF this] show ?thesis by simp
qed

lemma get_coverages_frames_unchanged:
  assumes "fst (get_coverages block_dim \<sigma> reads_orig chrom start end' pad) \<noteq> Inl OutOfBounds"
  shows "\<exists>\<sigma>'. snd (get_coverages block_dim \<sigma> reads_orig chrom start end' pad) = Some \<sigma>' \<and>
     take (length \<sigma>) \<sigma>' = \<sigma> \<and> (reads_orig < length \<sigma> \<longrightarrow> \<sigma>' ! reads_orig = \<sigma> ! reads_orig)"
proof -
  from assms have "snd (get_coverages block_dim \<sigma> reads_orig chrom start end' pad) \<noteq> None"
    by (simp add: get_coverages_undetermined)
  then obtain \<sigma>' where
    s: "snd (get_coverages block_dim \<sigma> reads_orig chrom start end' pad) = Some \<sigma>'" by auto
  from get_coverages_frames [OF s] have t: "take (length \<sigma>) \<sigma>' = \<sigma>" .
  have "\<sigma>' ! reads_orig = \<sigma> ! reads_orig" if "reads_orig < length \<sigma>"
  proof -
    from that have "take (length \<sigma>) \<sigma>' ! reads_orig = \<sigma>' ! reads_orig" by simp
    with t show ?thesis by simp
  qed
  with s t show ?thesis by blast
qed

text \<open>
  Claim C1 says that \<open>x[i][p]\<close> is the number of fragments of cluster \<open>i\<close> that cover
  the coordinate \<open>start - pad + p\<close>. The columns of \<open>expanded_coverage\<close> have
  \<open>window_size\<close> rows, not \<open>reads['len'].sum()\<close> rows. For the single read
  \<open>[1, 2)\<close> with \<open>row_num = 0\<close> and the window \<open>[0, 3)\<close>, the kernel writes one row and
  two rows stay \<open>(0, 0, 0)\<close>; the merge matches them with the read of \<open>row_num = 0\<close>,
  and they are counted at coordinate 0: \<open>x[0][0] = 2\<close>, where no fragment covers
  coordinate 0. This holds for every block size of the launch.
\<close>

theorem get_coverages_counts_unwritten_rows:
  "fst (get_coverages (Suc bd)
     [Reads [\<lparr>read_chrom = ''chr1'', read_start = 1, read_end = 2, read_cell = ''A'',
              read_row_num = 0, read_len = 1, read_cluster = (0::int)\<rparr>]]
     0 ''chr1'' 0 3 0) =
   Inr \<lparr>nrows = 1, ncols = 3, rows = [[2, 1, 0]]\<rparr> \<and>
   length (filter (\<lambda>r. read_cluster r = 0 \<and> read_start r \<le> 0 \<and> 0 < read_end r)
     [\<lparr>read_chrom = ''chr1'', read_start = 1, read_end = 2, read_cell = ''A'',
       read_row_num = 0, read_len = 1, read_cluster = (0::int)\<rparr>]) = 0"
proof -
  let ?r = "\<lparr>read_chrom = ''chr1'', read_start = 1, read_end = 2, read_cell = ''A'',
              read_row_num = 0, read_len = 1, read_cluster = (0::int)\<rparr>"
  let ?ex = "\<lparr>interval_start = [1, 0, 0], interval_end = [2, 0, 0], interval_index = [0, 0, 0]\<rparr>"
  let ?ms = "merge_row_num ?ex (map drop_start_end [?r])"
  let ?summed = "[\<lparr>s_chrom = ''chr1'', s_start = 0, s_end = 0, s_cluster = (0::int),
        s_row_num = 2, s_cell = 2, s_len = 2\<rparr>,
      \<lparr>s_chrom = ''chr1'', s_start = 1, s_end = 2, s_cluster = 0,
        s_row_num = 1, s_cell = 1, s_len = 1\<rparr>]"
  have expanded: "expanded_reads [?r] 3 = ?ex"
    by (simp add: expanded_reads_def expansion_def owner_def first_slot_def cumsum_def
        eval_nat_numeral upt_rec)
  have as32: "as_int32 ?ex = ?ex" by (simp add: as_int32_def int32_def)
  have ms: "?ms =
      [\<lparr>m_start = 1, m_end = 2, m_row_num = 0, m_chrom = ''chr1'', m_cell = ''A'', m_len = 1,
         m_cluster = 0\<rparr>,
       \<lparr>m_start = 0, m_end = 0, m_row_num = 0, m_chrom = ''chr1'', m_cell = ''A'', m_len = 1,
         m_cluster = 0\<rparr>,
       \<lparr>m_start = 0, m_end = 0, m_row_num = 0, m_chrom = ''chr1'', m_cell = ''A'', m_len = 1,
         m_cluster = 0\<rparr>]"
    by (simp add: merge_row_num_def drop_start_end_def)
  have summed: "summed_coverage_of ?ex [?r] = ?summed"
    unfolding summed_coverage_of_def as32 ms
    by (simp add: groupby_count_def group_key_def)
  have clusters: "clusters_of [?r] = [0]" by (simp add: clusters_of_def)
  have zeros: "replicate 3 (0::real) = [0, 0, 0]" by (simp add: eval_nat_numeral)
  have "fst (get_coverages (Suc bd) [Reads [?r]] 0 ''chr1'' 0 3 0) =
     (let rs = sort_key read_row_num [?r]; w = nat (3 - 0 + 2 * 0)
      in Inr (fill_tracks (summed_coverage_of (expanded_reads rs w) rs)
           0 3 0 (enumerate_list (clusters_of rs))
           \<lparr>nrows = length (clusters_of rs), ncols = w,
            rows = replicate (length (clusters_of rs)) (replicate w 0)\<rparr>))"
    by (rule get_coverages_in_bounds) (simp_all add: read_ok_def)
  also have "\<dots> = Inr (fill_tracks (summed_coverage_of (expanded_reads [?r] 3) [?r])
           0 3 0 (enumerate_list (clusters_of [?r]))
           \<lparr>nrows = length (clusters_of [?r]), ncols = 3,
            rows = replicate (length (clusters_of [?r])) (replicate 3 0)\<rparr>)"
    by (simp add: Let_def)
  also have "\<dots> = Inr \<lparr>nrows = 1, ncols = 3, rows = [[2, 1, 0]]\<rparr>"
    unfolding expanded summed clusters
    by (simp add: zeros enumerate_list_def cluster_track_def scatter_def)
  finally show ?thesis by simp
qed

text \<open>
  Claim C3 says that no write of the kernel lands outside the \<open>window_size\<close> rows
  allocated, the fragment lengths never summing to more. Two reads \<open>[0, 2)\<close> in the
  window \<open>[0, 2)\<close> have lengths summing to 4; the kernel writes slots 0 to 3 of columns
  with 2 rows, and the run leaves its buffers, for every block size of the launch.
\<close>

theorem get_coverages_overruns_buffers:
  "sum_list (map read_len
     [\<lparr>read_chrom = ''chr1'', read_start = 0, read_end = 2, read_cell = ''A'',
       read_row_num = 0, read_len = 2, read_cluster = (0::int)\<rparr>,
      \<lparr>read_chrom = ''chr1'', read_start = 0, read_end = 2, read_cell = ''B'',
       read_row_num = 1, read_len = 2, read_cluster = 0\<rparr>]) = 4 \<and>
   fst (get_coverages (Suc bd)
     [Reads [\<lparr>read_chrom = ''chr1'', read_start = 0, read_end = 2, read_cell = ''A'',
              read_row_num = 0, read_len = 2, read_cluster = (0::int)\<rparr>,
             \<lparr>read_chrom = ''chr1'', read_start = 0, read_end = 2, read_cell = ''B'',
              read_row_num = 1, read_len = 2, read_cluster = 0\<rparr>]]
     0 ''chr1'' 0 2 0) = Inl OutOfBounds"
proof -
  let ?a = "\<lparr>read_chrom = ''chr1'', read_start = 0, read_end = 2, read_cell = ''A'',
              read_row_num = 0, read_len = 2, read_cluster = (0::int)\<rparr>"
  let ?b = "\<lparr>read_chrom = ''chr1'', read_start = 0, read_end = 2, read_cell = ''B'',
              read_row_num = 1, read_len = 2, read_cluster = (0::int)\<rparr>"
  have "kernel_launch (Suc bd) [?a, ?b] 2 = Inl OutOfBounds"
    by (rule launch_overrun [where i = 1]) (simp_all add: read_ok_def cumsum_def)
  then have "fst (get_coverages (Suc bd) [Reads [?a, ?b]] 0 ''chr1'' 0 2 0) = Inl OutOfBounds"
    by (simp add: get_coverages_result Let_def)
  then show ?thesis by simp
qed



section \<open>The windows of \<open>reshape_with_padding\<close>\<close>

lemmas np_defs = reshape_with_padding_def int_of_quotient_def py_range_def np_zeros_def
  and_then_def np_stack_def py_slice_def slice_bound_def assign_rows_def broadcast_to_def
  Let_def

text \<open>
  Claim C4 says that for a coverage of shape \<open>(C, W)\<close> with \<open>W - 2*pad\<close> a positive multiple
  of \<open>interval_size\<close>, row \<open>i*n_intervals + j\<close> of the result is the window
  \<open>coverage[i, j*interval_size : j*interval_size + interval_size + 2*pad]\<close>. The source
  takes the window starts from \<open>range(0, W - padded_interval_size, interval_size + pad)\<close>,
  which stops one window short and steps by \<open>interval_size + pad\<close>. For one cluster,
  \<open>W = 4\<close>, \<open>interval_size = 2\<close> and \<open>pad = 0\<close> there are two intervals and a single
  start, \<open>0\<close>; the one window is broadcast to both rows, so row 1 is \<open>[1, 2]\<close> and not the
  window \<open>coverage[0, 2:4] = [3, 4]\<close> of the claim.
\<close>

theorem reshape_with_padding_second_window:
  "reshape_with_padding \<lparr>nrows = 1, ncols = 4, rows = [[1, 2, 3, 4]]\<rparr> 2 0 =
     Inr \<lparr>nrows = 2, ncols = 2, rows = [[1, 2], [1, 2]]\<rparr> \<and>
   py_slice [1, 2, 3, 4 :: real] (1 * 2) (1 * 2 + 2 + 2 * 0) = [3, 4]"
  by (simp add: np_defs eval_nat_numeral upt_rec)

text \<open>
  Claim C5 says that \<open>atacworks_denoise\<close> returns an array of shape \<open>(C, W - 2*pad, K)\<close>
  whenever \<open>W - 2*pad\<close> is a positive multiple of \<open>interval_size\<close>. For one cluster,
  \<open>W = 6\<close>, \<open>interval_size = 2\<close> and \<open>pad = 0\<close> there are three intervals and two window
  starts; two windows cannot be assigned to three rows, and the call ends in the ValueError
  of \<open>reshape_with_padding\<close> before the network runs, whatever the network is.
\<close>

theorem atacworks_denoise_three_intervals:
  "atacworks_denoise \<lparr>nrows = 1, ncols = 6, rows = [[1, 2, 3, 4, 5, 6]]\<rparr> model gpu 2 0 =
     Inl ValueError"
  by (simp add: atacworks_denoise_def np_defs eval_nat_numeral upt_rec)

section \<open>The table of \<open>count_fragments\<close>\<close>

lemma sum_list_insort_key_nat:
  "sum_list (map g (insort_key f x xs)) = (g x :: nat) + sum_list (map g xs)"
  by (induction xs) simp_all

lemma sum_list_sort_key_nat: "sum_list (map g (sort_key f xs)) = (sum_list (map g xs) :: nat)"
  by (induction xs) (simp_all add: sum_list_insort_key_nat)

lemma value_counts_keys: "map fst (map (\<lambda>v. (v, count_list vals v)) ks) = ks"
  by (induction ks) simp_all

lemma distinct_fst_sort_key:
  assumes "distinct (map fst xs)"
  shows "distinct (map fst (sort_key f xs))"
proof -
  from assms have "distinct xs \<and> inj_on fst (set xs)" by (simp add: distinct_map)
  then have "distinct (sort_key f xs) \<and> inj_on fst (set (sort_key f xs))" by simp
  then show ?thesis by (simp add: distinct_map)
qed

lemma value_counts_distinct: "distinct (map fst (value_counts col))"
proof -
  let ?vals = "map the (filter (\<lambda>c. c \<noteq> None) col)"
  let ?t = "map (\<lambda>v. (v, count_list ?vals v)) (rev (remdups (rev ?vals)))"
  have "distinct (map fst ?t)" by (subst value_counts_keys) simp
  then have "distinct (map fst (sort_key (\<lambda>(v, n). - int n) ?t))"
    by (rule distinct_fst_sort_key)
  then show ?thesis by (simp add: value_counts_def Let_def)
qed

lemma value_counts_set:
  "set (value_counts col) =
     (\<lambda>v. (v, count_list (map the (filter (\<lambda>c. c \<noteq> None) col)) v)) `
       set (map the (filter (\<lambda>c. c \<noteq> None) col))"
  by (simp add: value_counts_def Let_def)

lemma value_counts_sum:
  "sum_list (map snd (value_counts col)) = length (filter (\<lambda>c. c \<noteq> None) col)"
proof -
  let ?vals = "map the (filter (\<lambda>c. c \<noteq> None) col)"
  have "sum_list (map snd (value_counts col)) =
      sum_list (map snd (map (\<lambda>v. (v, count_list ?vals v)) (rev (remdups (rev ?vals)))))"
    by (simp add: value_counts_def Let_def sum_list_sort_key_nat)
  also have "\<dots> = sum_list (map (count_list ?vals) (rev (remdups (rev ?vals))))"
    by (simp add: comp_def)
  also have "\<dots> = sum (count_list ?vals) (set (rev (remdups (rev ?vals))))"
    by (rule sum_list_distinct_conv_sum_set) simp
  also have "\<dots> = sum (count_list ?vals) (set ?vals)" by simp
  also have "\<dots> = length ?vals" by (rule sum_count_set) simp_all
  finally show ?thesis by simp
qed

lemma present_cells:
  "list_all (\<lambda>c. c \<noteq> None) col \<Longrightarrow> filter (\<lambda>c. c \<noteq> None) col = col"
  by (simp add: list_all_iff)

lemma count_present:
  "list_all (\<lambda>c. c \<noteq> None) col \<Longrightarrow>
     count_list (map the col) v = length (filter (\<lambda>c. c = Some v) col)"
  by (induction col) auto

text \<open>
  Claim C7. When the reader yields a barcode for every line of the fragment file,
  \<open>count_fragments\<close> returns a table with one row per distinct barcode: no barcode is in
  two rows, the barcodes of the table are those of the file, every row pairs its barcode
  with the number of lines that carry it, and the \<open>fragments\<close> values sum to the number
  of lines.
\<close>

theorem count_fragments_table:
  assumes parsed: "read_csv fragment_file = Inr col"
    and present: "list_all (\<lambda>c. c \<noteq> None) col"
  shows "\<exists>t. count_fragments read_csv fragment_file = Inr t \<and>
     distinct (map cell t) \<and>
     set (map cell t) = the ` set col \<and>
     (\<forall>row\<in>set t. fragments row = length (filter (\<lambda>c. c = Some (cell row)) col)) \<and>
     sum_list (map fragments t) = length col"
proof -
  let ?vc = "value_counts col"
  let ?t = "map (\<lambda>(v, n). \<lparr>cell = v, fragments = n\<rparr>) ?vc"
  have run: "count_fragments read_csv fragment_file = Inr ?t"
    by (simp add: count_fragments_def parsed and_then_def)
  have cells: "map cell ?t = map fst ?vc" by (simp add: split_def)
  have frs: "map fragments ?t = map snd ?vc" by (simp add: split_def)
  have all: "filter (\<lambda>c. c \<noteq> None) col = col" by (rule present_cells [OF present])
  have d: "distinct (map cell ?t)" unfolding cells by (rule value_counts_distinct)
  have "set (map fst ?vc) = fst ` set ?vc" by simp
  also have "\<dots> = fst ` (\<lambda>v. (v, count_list (map the col) v)) ` set (map the col)"
    unfolding value_counts_set all ..
  also have "\<dots> = the ` set col" by (simp add: image_image)
  finally have s: "set (map cell ?t) = the ` set col" unfolding cells .
  have c: "\<forall>row\<in>set ?t. fragments row = length (filter (\<lambda>c. c = Some (cell row)) col)"
    unfolding set_map value_counts_set all by (auto simp: count_present [OF present])
  have m: "sum_list (map fragments ?t) = length col"
    unfolding frs value_counts_sum all ..
  from run d s c m show ?thesis by blast
qed

theorem count_fragments_table_witness:
  "\<exists>t. count_fragments (\<lambda>lines. Inr (map (\<lambda>l. Some (split_on (CHR 0x09) l ! 3)) lines))
       [''chr1'' @ CHR 0x09 # ''10'' @ CHR 0x09 # ''20'' @ CHR 0x09 # ''AAC'' @ CHR 0x09 # ''1'',
        ''chr1'' @ CHR 0x09 # ''15'' @ CHR 0x09 # ''27'' @ CHR 0x09 # ''GGT'' @ CHR 0x09 # ''2'',
        ''chr2'' @ CHR 0x09 # ''31'' @ CHR 0x09 # ''40'' @ CHR 0x09 # ''AAC'' @ CHR 0x09 # ''1''] = Inr t \<and>
     distinct (map cell t) \<and> set (map cell t) = {''AAC'', ''GGT''} \<and>
     sum_list (map fragments t) = 3 \<and>
     (\<forall>row\<in>set t. cell row = ''AAC'' \<longrightarrow> fragments row = 2)"
proof -
  let ?reader = "\<lambda>lines. Inr (map (\<lambda>l. Some (split_on (CHR 0x09) l ! 3)) lines) :: error + string option list"
  let ?f = "[''chr1'' @ CHR 0x09 # ''10'' @ CHR 0x09 # ''20'' @ CHR 0x09 # ''AAC'' @ CHR 0x09 # ''1'',
        ''chr1'' @ CHR 0x09 # ''15'' @ CHR 0x09 # ''27'' @ CHR 0x09 # ''GGT'' @ CHR 0x09 # ''2'',
        ''chr2'' @ CHR 0x09 # ''31'' @ CHR 0x09 # ''40'' @ CHR 0x09 # ''AAC'' @ CHR 0x09 # ''1'']"
  let ?col = "[Some ''AAC'', Some ''GGT'', Some ''AAC'']"
  have h1: "?reader ?f = Inr ?col" by simp
  have h2: "list_all (\<lambda>c. c \<noteq> None) ?col" by simp
  from count_fragments_table [of ?reader ?f, OF h1 h2]
  obtain t where t: "count_fragments ?reader ?f = Inr t"
    "distinct (map cell t)"
    "set (map cell t) = the ` set ?col"
    "\<forall>row\<in>set t. fragments row = length (filter (\<lambda>c. c = Some (cell row)) ?col)"
    "sum_list (map fragments t) = length ?col"
    by blast
  from t(4) have "\<forall>row\<in>set t. cell row = ''AAC'' \<longrightarrow> fragments row = 2" by simp
  moreover from t(3) have "set (map cell t) = {''AAC'', ''GGT''}" by auto
  ultimately show ?thesis using t(1,2,5) by simp
qed

section \<open>The dataframe of \<open>read_fragments\<close>\<close>

lemma five_columns:
  "new_dataframe data [''chrom'', ''start'', ''end'', ''cell'', ''duplicate''] =
     (if list_all (\<lambda>r. length r = 5) data
      then Inr [(''chrom'', Strings (map (\<lambda>r. r ! 0) data)),
                (''start'', Strings (map (\<lambda>r. r ! 1) data)),
                (''end'', Strings (map (\<lambda>r. r ! 2) data)),
                (''cell'', Strings (map (\<lambda>r. r ! 3) data)),
                (''duplicate'', Strings (map (\<lambda>r. r ! 4) data))]
      else Inl ValueError)"
proof -
  have len: "length [''chrom'', ''start'', ''end'', ''cell'', ''duplicate''] = 5" by simp
  have idx: "[0..<5] = [0, 1, 2, 3, 4]" by (simp add: upt_rec)
  show ?thesis unfolding new_dataframe_def len idx by simp
qed

text \<open>
  Claim C9. \<open>read_fragments\<close> queries the file for \<open>chrom:(start - pad)-(end + pad)\<close>.
  When every record returned has five fields and the second and third convert to 32-bit
  integers, the dataframe returned has the columns \<open>chrom\<close>, \<open>start\<close>, \<open>end\<close>,
  \<open>cell\<close>, \<open>row_num\<close>, \<open>len\<close>, in this order: the first four fields of the records
  (the fifth is dropped), with \<open>start\<close> and \<open>end\<close> as 32-bit integers, \<open>row_num\<close> the
  position of the record in the query result, and \<open>len = end - start\<close>.
\<close>

theorem read_fragments_rows:
  assumes query: "records = tabix_query tabix fragment_file chrom (start - pad) (end' + pad)"
    and five: "list_all (\<lambda>r. length r = 5) records"
    and ints: "list_all (\<lambda>r. str_to_int32 (r ! 1) \<noteq> None \<and> str_to_int32 (r ! 2) \<noteq> None) records"
  shows "records = map (\<lambda>line. split_on (CHR 0x09) (strip line))
           (tabix fragment_file
              (chrom @ '':'' @ format_int (start - pad) @ ''-'' @ format_int (end' + pad))) \<and>
         read_fragments tabix str_to_int32 chrom start end' fragment_file pad =
           Inr [(''chrom'', Strings (map (\<lambda>r. r ! 0) records)),
                (''start'', Int32s (map (\<lambda>r. the (str_to_int32 (r ! 1))) records)),
                (''end'', Int32s (map (\<lambda>r. the (str_to_int32 (r ! 2))) records)),
                (''cell'', Strings (map (\<lambda>r. r ! 3) records)),
                (''row_num'', Int64s (map int [0..<length records])),
                (''len'', Int32s (map (\<lambda>r. the (str_to_int32 (r ! 2)) - the (str_to_int32 (r ! 1)))
                             records))]"
proof
  show "records = map (\<lambda>line. split_on (CHR 0x09) (strip line))
           (tabix fragment_file
              (chrom @ '':'' @ format_int (start - pad) @ ''-'' @ format_int (end' + pad)))"
    by (simp add: query tabix_query_def)
  have s: "list_all (\<lambda>x. str_to_int32 x \<noteq> None) (map (\<lambda>r. r ! 1) records)"
    and e: "list_all (\<lambda>x. str_to_int32 x \<noteq> None) (map (\<lambda>r. r ! 2) records)"
    using ints by (simp_all add: list_all_iff)
  show "read_fragments tabix str_to_int32 chrom start end' fragment_file pad =
           Inr [(''chrom'', Strings (map (\<lambda>r. r ! 0) records)),
                (''start'', Int32s (map (\<lambda>r. the (str_to_int32 (r ! 1))) records)),
                (''end'', Int32s (map (\<lambda>r. the (str_to_int32 (r ! 2))) records)),
                (''cell'', Strings (map (\<lambda>r. r ! 3) records)),
                (''row_num'', Int64s (map int [0..<length records])),
                (''len'', Int32s (map (\<lambda>r. the (str_to_int32 (r ! 2)) - the (str_to_int32 (r ! 1)))
                             records))]"
    unfolding read_fragments_def query [symmetric] five_columns
    using five s e
    by (simp add: and_then_def iloc_columns_def set_column_def index_of_def column_length_def
        get_column_def to_int32_def subtract_def map2_map_map Let_def comp_def)
qed


theorem read_fragments_rows_witness:
  "read_fragments
     (\<lambda>f q. if q = ''chr1:10-20''
        then [''chr1'' @ CHR 0x09 # ''10'' @ CHR 0x09 # ''20'' @ CHR 0x09 # ''AAC'' @ CHR 0x09 # ''1'' @ [CHR 0x0A],
              ''chr1'' @ CHR 0x09 # ''15'' @ CHR 0x09 # ''27'' @ CHR 0x09 # ''GGT'' @ CHR 0x09 # ''2'' @ [CHR 0x0A]]
        else [])
     (\<lambda>s. if s = ''10'' then Some 10 else if s = ''20'' then Some 20
          else if s = ''15'' then Some 15 else if s = ''27'' then Some 27 else None)
     ''chr1'' 12 18 ''fragments.tsv.gz'' 2 =
   Inr [(''chrom'', Strings [''chr1'', ''chr1'']),
        (''start'', Int32s [10, 15]), (''end'', Int32s [20, 27]),
        (''cell'', Strings [''AAC'', ''GGT'']), (''row_num'', Int64s [0, 1]),
        (''len'', Int32s [10, 12])]"
proof -
  let ?tabix = "\<lambda>(f::string) q. if q = ''chr1:10-20''
        then [''chr1'' @ CHR 0x09 # ''10'' @ CHR 0x09 # ''20'' @ CHR 0x09 # ''AAC'' @ CHR 0x09 # ''1'' @ [CHR 0x0A],
              ''chr1'' @ CHR 0x09 # ''15'' @ CHR 0x09 # ''27'' @ CHR 0x09 # ''GGT'' @ CHR 0x09 # ''2'' @ [CHR 0x0A]]
        else []"
  let ?cast = "\<lambda>s. if s = ''10'' then Some (10 :: 32 word) else if s = ''20'' then Some 20
          else if s = ''15'' then Some 15 else if s = ''27'' then Some 27 else None"
  let ?records = "[[''chr1'', ''10'', ''20'', ''AAC'', ''1''], [''chr1'', ''15'', ''27'', ''GGT'', ''2'']]"
  have q: "format_int (12 - 2) = ''10''" "format_int (18 + 2) = ''20''"
    by (simp_all add: format_int_def digits.simps)
  have records: "?records = tabix_query ?tabix ''fragments.tsv.gz'' ''chr1'' (12 - 2) (18 + 2)"
    unfolding tabix_query_def q by (simp add: strip_def is_space_def)
  have five: "list_all (\<lambda>r. length r = 5) ?records" by simp
  have ints: "list_all (\<lambda>r. ?cast (r ! 1) \<noteq> None \<and> ?cast (r ! 2) \<noteq> None) ?records" by simp
  from read_fragments_rows [OF records five ints]
  have "read_fragments ?tabix ?cast ''chr1'' 12 18 ''fragments.tsv.gz'' 2 =
      Inr [(''chrom'', Strings (map (\<lambda>r. r ! 0) ?records)),
           (''start'', Int32s (map (\<lambda>r. the (?cast (r ! 1))) ?records)),
           (''end'', Int32s (map (\<lambda>r. the (?cast (r ! 2))) ?records)),
           (''cell'', Strings (map (\<lambda>r. r ! 3) ?records)),
           (''row_num'', Int64s (map int [0..<length ?records])),
           (''len'', Int32s (map (\<lambda>r. the (?cast (r ! 2)) - the (?cast (r ! 1))) ?records))]"
    by (rule conjunct2)
  then show ?thesis by (simp add: upt_rec)
qed

end
